theory Spec2Isabelle
  imports Complex_Main
begin

section \<open>Python and NumPy primitives used by the question-answering notebook\<close>

text \<open>
  The notebook computes on NumPy arrays of floating-point scores. Scores are real numbers;
  the rounding of the products is a parameter of the scorer with rounded products, and the
  scorer without rounding is its exact instance. Indices are Python integers (\<open>int\<close>);
  every exception the notebook can raise is a value of \<open>error\<close>.
\<close>

datatype error = ValueError | IndexError

text \<open>
  \<^verbatim>\<open>xs[start:stop]\<close>: a negative bound counts from the end, and every bound is clamped to
  the sequence; a slice whose lower bound is not below the upper one is empty.
\<close>

definition slice_bound :: "nat \<Rightarrow> int \<Rightarrow> nat" where
  "slice_bound n k = (if k < 0 then nat (max 0 (k + int n)) else min (nat k) n)"

definition py_slice :: "'a list \<Rightarrow> int \<Rightarrow> int \<Rightarrow> 'a list" where
  "py_slice xs start stop =
     (let lo = slice_bound (length xs) start;
          hi = slice_bound (length xs) stop
      in take (hi - lo) (drop lo xs))"

text \<open>A two-dimensional array: its shape and its elements in row-major order.\<close>

record ndarray =
  shape :: "nat \<times> nat"
  data :: "real list"

definition elem :: "ndarray \<Rightarrow> nat \<Rightarrow> nat \<Rightarrow> real" where
  "elem m i j = data m ! (i * snd (shape m) + j)"

definition tabulate2 :: "nat \<Rightarrow> nat \<Rightarrow> (nat \<Rightarrow> nat \<Rightarrow> real) \<Rightarrow> ndarray" where
  "tabulate2 r c f = \<lparr>shape = (r, c), data = map (\<lambda>k. f (k div c) (k mod c)) [0..<r * c]\<rparr>"

text \<open>
  \<^verbatim>\<open>a.reshape((r, c))\<close> of a one-dimensional array: a negative entry is the one unknown
  dimension, inferred from the size; otherwise the sizes must agree.
\<close>

definition reshape :: "real list \<Rightarrow> int \<times> int \<Rightarrow> error + ndarray" where
  "reshape xs newshape =
     (case newshape of (r, c) \<Rightarrow>
        if r < 0 \<and> c < 0 then Inl ValueError
        else if r < 0 then
          (if c = 0 \<or> int (length xs) mod c \<noteq> 0 then Inl ValueError
           else Inr \<lparr>shape = (length xs div nat c, nat c), data = xs\<rparr>)
        else if c < 0 then
          (if r = 0 \<or> int (length xs) mod r \<noteq> 0 then Inl ValueError
           else Inr \<lparr>shape = (nat r, length xs div nat r), data = xs\<rparr>)
        else if r * c = int (length xs) then Inr \<lparr>shape = (nat r, nat c), data = xs\<rparr>
        else Inl ValueError)"

text \<open>\<^verbatim>\<open>np.matmul\<close> of two matrices; the inner dimensions must agree.\<close>

definition matmul :: "ndarray \<Rightarrow> ndarray \<Rightarrow> error + ndarray" where
  "matmul a b =
     (case (shape a, shape b) of ((r, k), (k', c)) \<Rightarrow>
        if k \<noteq> k' then Inl ValueError
        else Inr (tabulate2 r c (\<lambda>i j. sum_list (map (\<lambda>l. elem a i l * elem b l j) [0..<k]))))"

text \<open>
  \<^verbatim>\<open>np.triu(m, k)\<close> zeroes the entries below the \<open>k\<close>-th diagonal (\<open>j - i < k\<close>),
  \<^verbatim>\<open>np.tril(m, k)\<close> those above it (\<open>j - i > k\<close>); both return a new array.
\<close>

definition triu :: "ndarray \<Rightarrow> int \<Rightarrow> ndarray" where
  "triu m k = (case shape m of (r, c) \<Rightarrow>
     tabulate2 r c (\<lambda>i j. if int j \<le> int i + k - 1 then 0 else elem m i j))"

definition tril :: "ndarray \<Rightarrow> int \<Rightarrow> ndarray" where
  "tril m k = (case shape m of (r, c) \<Rightarrow>
     tabulate2 r c (\<lambda>i j. if int j \<le> int i + k then elem m i j else 0))"

definition flatten :: "ndarray \<Rightarrow> real list" where
  "flatten m = data m"

text \<open>
  \<^verbatim>\<open>argmax\<close>: the index of the first occurrence of the maximum, found by one scan that
  replaces the best element only by a strictly larger one; an empty sequence raises
  ValueError.
\<close>

fun argmax_scan :: "real \<Rightarrow> nat \<Rightarrow> nat \<Rightarrow> real list \<Rightarrow> nat" where
  "argmax_scan best bi k [] = bi"
| "argmax_scan best bi k (x # xs) =
     (if best < x then argmax_scan x k (Suc k) xs else argmax_scan best bi (Suc k) xs)"

definition argmax :: "real list \<Rightarrow> error + nat" where
  "argmax xs = (case xs of [] \<Rightarrow> Inl ValueError | x # rest \<Rightarrow> Inr (argmax_scan x 0 1 rest))"

text \<open>
  \<^verbatim>\<open>divmod\<close> of the NumPy integer that \<^verbatim>\<open>argmax\<close> returns: quotient and remainder, and
  \<open>(0, 0)\<close> for a zero divisor, where NumPy warns and does not raise (the scorer never
  divides by zero: a matrix with an element has a column).
\<close>

definition np_divmod :: "nat \<Rightarrow> nat \<Rightarrow> nat \<times> nat" where
  "np_divmod a b = (if b = 0 then (0, 0) else (a div b, a mod b))"

text \<open>\<^verbatim>\<open>m[i, j]\<close> with non-negative indices: IndexError outside the shape.\<close>

definition getitem2 :: "ndarray \<Rightarrow> nat \<Rightarrow> nat \<Rightarrow> error + real" where
  "getitem2 m i j = (case shape m of (r, c) \<Rightarrow>
     if i < r \<and> j < c then Inr (elem m i j) else Inl IndexError)"

section \<open>The answer-window scorer\<close>

definition find_best_answer_window ::
  "real list \<Rightarrow> real list \<Rightarrow> int \<Rightarrow> int \<Rightarrow> error + real \<times> nat \<times> nat" where
  "find_best_answer_window start_score end_score context_start_idx context_end_idx =
     (let context_len = context_end_idx - context_start_idx in
      case reshape (py_slice start_score context_start_idx context_end_idx) (context_len, 1) of
        Inl e \<Rightarrow> Inl e
      | Inr col \<Rightarrow>
      (case reshape (py_slice end_score context_start_idx context_end_idx) (1, context_len) of
        Inl e \<Rightarrow> Inl e
      | Inr row \<Rightarrow>
      (case matmul col row of
        Inl e \<Rightarrow> Inl e
      | Inr score_mat0 \<Rightarrow>
      (let score_mat1 = triu score_mat0 0;
           score_mat = tril score_mat1 16
       in case argmax (flatten score_mat) of
        Inl e \<Rightarrow> Inl e
      | Inr k \<Rightarrow>
      (case np_divmod k (snd (shape score_mat)) of
        (max_s, max_e) \<Rightarrow>
      (case getitem2 score_mat max_s max_e of
        Inl e \<Rightarrow> Inl e
      | Inr max_score \<Rightarrow> Inr (max_score, max_s, max_e)))))))"

text \<open>
  The entry \<open>(i, j)\<close> of the score matrix after both masks, for the context slices \<open>a\<close>
  of the start scores and \<open>b\<close> of the end scores: the product \<open>a ! i * b ! j\<close>, or zero
  where the end lies before the start or more than 16 tokens after it.
\<close>

definition masked_score :: "real list \<Rightarrow> real list \<Rightarrow> nat \<Rightarrow> nat \<Rightarrow> real" where
  "masked_score a b i j =
     (if j \<le> i + 16 then (if j < i then 0 else a ! i * b ! j) else 0)"

section \<open>The scorer with rounded products\<close>

text \<open>
  The scores are floating-point numbers, and every product and sum that \<^verbatim>\<open>np.matmul\<close>
  forms is rounded to one. \<open>rnd\<close> is that rounding, a parameter: \<open>matmul_fl\<close> rounds each
  product and each partial sum of an entry. Slices, reshapes, masks, \<^verbatim>\<open>argmax\<close> and
  indexing copy or compare numbers and do not round. \<open>find_best_answer_window\<close> above is the
  scorer without rounding.
\<close>

definition matmul_fl :: "(real \<Rightarrow> real) \<Rightarrow> ndarray \<Rightarrow> ndarray \<Rightarrow> error + ndarray" where
  "matmul_fl rnd a b =
     (case (shape a, shape b) of ((r, k), (k', c)) \<Rightarrow>
        if k \<noteq> k' then Inl ValueError
        else Inr (tabulate2 r c
          (\<lambda>i j. foldl (\<lambda>acc l. rnd (acc + rnd (elem a i l * elem b l j))) 0 [0..<k])))"

definition find_best_answer_window_fl ::
  "(real \<Rightarrow> real) \<Rightarrow> real list \<Rightarrow> real list \<Rightarrow> int \<Rightarrow> int \<Rightarrow> error + real \<times> nat \<times> nat" where
  "find_best_answer_window_fl rnd start_score end_score context_start_idx context_end_idx =
     (let context_len = context_end_idx - context_start_idx in
      case reshape (py_slice start_score context_start_idx context_end_idx) (context_len, 1) of
        Inl e \<Rightarrow> Inl e
      | Inr col \<Rightarrow>
      (case reshape (py_slice end_score context_start_idx context_end_idx) (1, context_len) of
        Inl e \<Rightarrow> Inl e
      | Inr row \<Rightarrow>
      (case matmul_fl rnd col row of
        Inl e \<Rightarrow> Inl e
      | Inr score_mat0 \<Rightarrow>
      (let score_mat1 = triu score_mat0 0;
           score_mat = tril score_mat1 16
       in case argmax (flatten score_mat) of
        Inl e \<Rightarrow> Inl e
      | Inr k \<Rightarrow>
      (case np_divmod k (snd (shape score_mat)) of
        (max_s, max_e) \<Rightarrow>
      (case getitem2 score_mat max_s max_e of
        Inl e \<Rightarrow> Inl e
      | Inr max_score \<Rightarrow> Inr (max_score, max_s, max_e)))))))"

text \<open>The entry \<open>(i, j)\<close> of the masked matrix when the products are rounded.\<close>

definition masked_score_fl :: "(real \<Rightarrow> real) \<Rightarrow> real list \<Rightarrow> real list \<Rightarrow> nat \<Rightarrow> nat \<Rightarrow> real" where
  "masked_score_fl rnd a b i j =
     (if j \<le> i + 16 then (if j < i then 0 else rnd (a ! i * b ! j)) else 0)"

text \<open>
  A rounding to the multiples of \<open>1/16\<close>, to the nearest one: a small instance of \<open>rnd\<close> on
  which the scorer can be evaluated.
\<close>

definition round16 :: "real \<Rightarrow> real" where
  "round16 x = of_int (round (x * 16)) / 16"

section \<open>Post-processing of the network output\<close>

text \<open>
  \<^verbatim>\<open>get_score\<close> is the softmax local to \<^verbatim>\<open>postprocess\<close>:
  \<^verbatim>\<open>out = np.exp(logits); return out / out.sum(axis=-1)\<close>.
\<close>

definition get_score :: "real list \<Rightarrow> real list" where
  "get_score logits = (let out = map exp logits in map (\<lambda>x. x / sum_list out) out)"

text \<open>\<^verbatim>\<open>xs[i]\<close> on a Python list with a non-negative index.\<close>

definition list_getitem :: "'a list \<Rightarrow> nat \<Rightarrow> error + 'a" where
  "list_getitem xs i = (if i < length xs then Inr (xs ! i) else Inl IndexError)"

definition postprocess ::
  "real list \<Rightarrow> real list \<Rightarrow> int list \<Rightarrow> (int \<times> int) list \<Rightarrow> int \<Rightarrow> error + real \<times> int \<times> int" where
  "postprocess output_start output_end question_tokens context_tokens_start_end input_size =
     (let score_start = get_score output_start;
          score_end = get_score output_end;
          context_start_idx = int (length question_tokens) + 2;
          context_end_idx = input_size - 1
      in case find_best_answer_window score_start score_end context_start_idx context_end_idx of
        Inl e \<Rightarrow> Inl e
      | Inr (max_score, max_start, max_end) \<Rightarrow>
      (case list_getitem context_tokens_start_end max_start of
        Inl e \<Rightarrow> Inl e
      | Inr span_s \<Rightarrow>
      (case list_getitem context_tokens_start_end max_end of
        Inl e \<Rightarrow> Inl e
      | Inr span_e \<Rightarrow> Inr (max_score, fst span_s, snd span_e))))"

text \<open>
  The index mapping as the specification words it, for comparison with \<open>postprocess\<close>:
  the window indices are first moved to full-sequence token indices by adding
  \<open>context_start_idx\<close>, and those are looked up in the span index map.
\<close>

definition postprocess_spec ::
  "real list \<Rightarrow> real list \<Rightarrow> int list \<Rightarrow> (int \<times> int) list \<Rightarrow> int \<Rightarrow> error + real \<times> int \<times> int" where
  "postprocess_spec output_start output_end question_tokens context_tokens_start_end input_size =
     (let score_start = get_score output_start;
          score_end = get_score output_end;
          context_start_idx = int (length question_tokens) + 2;
          context_end_idx = input_size - 1
      in case find_best_answer_window score_start score_end context_start_idx context_end_idx of
        Inl e \<Rightarrow> Inl e
      | Inr (max_score, max_start, max_end) \<Rightarrow>
      (case list_getitem context_tokens_start_end (nat context_start_idx + max_start) of
        Inl e \<Rightarrow> Inl e
      | Inr span_s \<Rightarrow>
      (case list_getitem context_tokens_start_end (nat context_start_idx + max_end) of
        Inl e \<Rightarrow> Inl e
      | Inr span_e \<Rightarrow> Inr (max_score, fst span_s, snd span_e))))"

section \<open>Preparing the network input\<close>

text \<open>
  The dictionary fed to the network. Every entry is a batch of one row
  (\<^verbatim>\<open>np.array([input_ids], dtype=np.int32)\<close>); token identifiers are vocabulary indices,
  kept as integers. \<open>position_ids\<close> is present only for models that declare such an input.
  The special tokens \<open>cls_token\<close> and \<open>sep_token\<close> are globals of the notebook, read from
  the vocabulary, and are parameters here; \<open>input_keys\<close> is the list of the input names.
\<close>

record input_dict =
  input_ids :: "int list list"
  attention_mask :: "int list list"
  token_type_ids :: "int list list"
  position_ids :: "int list list option"

definition prepare_input :: "int \<Rightarrow> int \<Rightarrow> int list \<Rightarrow> int list \<Rightarrow> string list \<Rightarrow> input_dict" where
  "prepare_input cls_token sep_token question_tokens context_tokens input_keys =
     (let ids = [cls_token] @ question_tokens @ [sep_token] @ context_tokens @ [sep_token];
          mask = replicate (length ids) 1;
          types = replicate (length question_tokens + 2) 0 @ replicate (length context_tokens + 1) 1;
          d = \<lparr>input_ids = [ids], attention_mask = [mask], token_type_ids = [types],
               position_ids = None\<rparr>
      in if ''position_ids'' \<in> set input_keys
         then d\<lparr>position_ids := Some [map int [0..<length ids]]\<rparr>
         else d)"

section \<open>Answering one question\<close>

text \<open>
  \<^verbatim>\<open>get_best_answer\<close> calls three collaborators that are not part of the notebook: the
  tokenizer \<^verbatim>\<open>tokens.text_to_tokens\<close>, the compiled model, and \<^verbatim>\<open>str.lower\<close>. They are
  parameters: \<open>text_to_tokens\<close> returns the token identifiers and, for each token, its
  character span in the text; \<open>infer\<close> returns the start and end logits.
\<close>

definition get_best_answer ::
  "(string \<Rightarrow> string) \<Rightarrow> (string \<Rightarrow> 'v \<Rightarrow> int list \<times> (int \<times> int) list) \<Rightarrow>
   (input_dict \<Rightarrow> real list \<times> real list) \<Rightarrow> int \<Rightarrow> int \<Rightarrow>
   string \<Rightarrow> string \<Rightarrow> 'v \<Rightarrow> string list \<Rightarrow> error + string \<times> real" where
  "get_best_answer lower text_to_tokens infer cls_token sep_token question context vocab input_keys =
     (case text_to_tokens (lower context) vocab of (context_tokens, context_tokens_start_end) \<Rightarrow>
      case text_to_tokens (lower question) vocab of (question_tokens, _) \<Rightarrow>
      let network_input = prepare_input cls_token sep_token question_tokens context_tokens input_keys;
          input_size = int (length context_tokens) + int (length question_tokens) + 3
      in case infer network_input of (output_s, output_e) \<Rightarrow>
      (case postprocess output_s output_e question_tokens context_tokens_start_end input_size of
        Inl e \<Rightarrow> Inl e
      | Inr score_start_end \<Rightarrow>
          Inr (py_slice context (fst (snd score_start_end)) (snd (snd score_start_end)),
               fst score_start_end)))"

section \<open>The scorer on a store of array buffers\<close>

text \<open>
  NumPy arrays are views on buffers: slicing and reshaping return a view on the buffer of
  their argument, while \<^verbatim>\<open>matmul\<close>, \<^verbatim>\<open>triu\<close>, \<^verbatim>\<open>tril\<close> and \<^verbatim>\<open>flatten\<close> allocate a new
  buffer for their result. The store is the list of all buffers, a buffer's address its
  position; the scorer threads the store through its calls.
\<close>

type_synonym store = "real list list"

record vec_view =
  vbuf :: nat
  voff :: nat
  vlen :: nat

record mat_view =
  mbuf :: nat
  moff :: nat
  mshape :: "nat \<times> nat"

definition load_vec :: "store \<Rightarrow> vec_view \<Rightarrow> real list" where
  "load_vec h a = take (vlen a) (drop (voff a) (h ! vbuf a))"

definition load_mat :: "store \<Rightarrow> mat_view \<Rightarrow> ndarray" where
  "load_mat h m = \<lparr>shape = mshape m,
                   data = take (fst (mshape m) * snd (mshape m)) (drop (moff m) (h ! mbuf m))\<rparr>"

text \<open>A view is valid in a store when its buffer exists and holds all its elements.\<close>

definition valid_view :: "store \<Rightarrow> vec_view \<Rightarrow> bool" where
  "valid_view h a \<longleftrightarrow> vbuf a < length h \<and> voff a + vlen a \<le> length (h ! vbuf a)"

definition alloc :: "store \<Rightarrow> real list \<Rightarrow> nat \<times> store" where
  "alloc h xs = (length h, h @ [xs])"

definition slice_view :: "vec_view \<Rightarrow> int \<Rightarrow> int \<Rightarrow> vec_view" where
  "slice_view a start stop =
     (let lo = slice_bound (vlen a) start;
          hi = slice_bound (vlen a) stop
      in \<lparr>vbuf = vbuf a, voff = voff a + lo, vlen = hi - lo\<rparr>)"

definition reshape_view :: "vec_view \<Rightarrow> int \<times> int \<Rightarrow> error + mat_view" where
  "reshape_view a newshape =
     (case newshape of (r, c) \<Rightarrow>
        if r < 0 \<and> c < 0 then Inl ValueError
        else if r < 0 then
          (if c = 0 \<or> int (vlen a) mod c \<noteq> 0 then Inl ValueError
           else Inr \<lparr>mbuf = vbuf a, moff = voff a, mshape = (vlen a div nat c, nat c)\<rparr>)
        else if c < 0 then
          (if r = 0 \<or> int (vlen a) mod r \<noteq> 0 then Inl ValueError
           else Inr \<lparr>mbuf = vbuf a, moff = voff a, mshape = (nat r, vlen a div nat r)\<rparr>)
        else if r * c = int (vlen a) then Inr \<lparr>mbuf = vbuf a, moff = voff a, mshape = (nat r, nat c)\<rparr>
        else Inl ValueError)"

definition store_mat :: "store \<Rightarrow> ndarray \<Rightarrow> mat_view \<times> store" where
  "store_mat h m = (case alloc h (data m) of (p, h') \<Rightarrow>
     (\<lparr>mbuf = p, moff = 0, mshape = shape m\<rparr>, h'))"

definition matmul_st :: "store \<Rightarrow> mat_view \<Rightarrow> mat_view \<Rightarrow> (error + mat_view) \<times> store" where
  "matmul_st h a b =
     (case matmul (load_mat h a) (load_mat h b) of
        Inl e \<Rightarrow> (Inl e, h)
      | Inr m \<Rightarrow> (case store_mat h m of (v, h') \<Rightarrow> (Inr v, h')))"

definition triu_st :: "store \<Rightarrow> mat_view \<Rightarrow> int \<Rightarrow> mat_view \<times> store" where
  "triu_st h a k = store_mat h (triu (load_mat h a) k)"

definition tril_st :: "store \<Rightarrow> mat_view \<Rightarrow> int \<Rightarrow> mat_view \<times> store" where
  "tril_st h a k = store_mat h (tril (load_mat h a) k)"

definition flatten_st :: "store \<Rightarrow> mat_view \<Rightarrow> vec_view \<times> store" where
  "flatten_st h a = (case alloc h (flatten (load_mat h a)) of (p, h') \<Rightarrow>
     (\<lparr>vbuf = p, voff = 0, vlen = fst (mshape a) * snd (mshape a)\<rparr>, h'))"

definition find_best_answer_window_st ::
  "store \<Rightarrow> vec_view \<Rightarrow> vec_view \<Rightarrow> int \<Rightarrow> int \<Rightarrow> (error + real \<times> nat \<times> nat) \<times> store" where
  "find_best_answer_window_st h start_score end_score context_start_idx context_end_idx =
     (let context_len = context_end_idx - context_start_idx in
      case reshape_view (slice_view start_score context_start_idx context_end_idx) (context_len, 1) of
        Inl e \<Rightarrow> (Inl e, h)
      | Inr col \<Rightarrow>
      (case reshape_view (slice_view end_score context_start_idx context_end_idx) (1, context_len) of
        Inl e \<Rightarrow> (Inl e, h)
      | Inr row \<Rightarrow>
      (case matmul_st h col row of
        (Inl e, h1) \<Rightarrow> (Inl e, h1)
      | (Inr score_mat0, h1) \<Rightarrow>
      (case triu_st h1 score_mat0 0 of (score_mat1, h2) \<Rightarrow>
       case tril_st h2 score_mat1 16 of (score_mat, h3) \<Rightarrow>
       case flatten_st h3 score_mat of (flat, h4) \<Rightarrow>
      (case argmax (load_vec h4 flat) of
        Inl e \<Rightarrow> (Inl e, h4)
      | Inr k \<Rightarrow>
      (case np_divmod k (snd (mshape score_mat)) of
        (max_s, max_e) \<Rightarrow>
      (case getitem2 (load_mat h4 score_mat) max_s max_e of
        Inl e \<Rightarrow> (Inl e, h4)
      | Inr max_score \<Rightarrow> (Inr (max_score, max_s, max_e), h4))))))))"

section \<open>The first maximum of a sequence\<close>

lemma argmax_scan_spec:
  "(argmax_scan b bi off xs = bi \<and> (\<forall>x\<in>set xs. x \<le> b)) \<or>
   (\<exists>p<length xs. argmax_scan b bi off xs = off + p \<and> b < xs ! p \<and>
        (\<forall>q<p. xs ! q < xs ! p) \<and> (\<forall>q<length xs. xs ! q \<le> xs ! p))"
proof (induction xs arbitrary: b bi off)
  case Nil
  show ?case by simp
next
  case (Cons x xs)
  show ?case
  proof (cases "b < x")
    case True
    from Cons.IH [of x off "Suc off"] show ?thesis
    proof
      assume h: "argmax_scan x off (Suc off) xs = off \<and> (\<forall>y\<in>set xs. y \<le> x)"
      have "\<forall>q<length (x # xs). (x # xs) ! q \<le> (x # xs) ! 0"
        using h by (auto simp: nth_Cons' )
      with h True have "0 < length (x # xs) \<and> argmax_scan b bi off (x # xs) = off + 0 \<and>
          b < (x # xs) ! 0 \<and> (\<forall>q<0. (x # xs) ! q < (x # xs) ! 0) \<and>
          (\<forall>q<length (x # xs). (x # xs) ! q \<le> (x # xs) ! 0)"
        by simp
      then show ?thesis by blast
    next
      assume "\<exists>p<length xs. argmax_scan x off (Suc off) xs = Suc off + p \<and> x < xs ! p \<and>
        (\<forall>q<p. xs ! q < xs ! p) \<and> (\<forall>q<length xs. xs ! q \<le> xs ! p)"
      then obtain p where p: "p < length xs" "argmax_scan x off (Suc off) xs = Suc off + p"
        "x < xs ! p" "\<forall>q<p. xs ! q < xs ! p" "\<forall>q<length xs. xs ! q \<le> xs ! p"
        by blast
      have a: "\<forall>q<Suc p. (x # xs) ! q < (x # xs) ! Suc p"
        using p by (auto simp: nth_Cons' less_Suc_eq_0_disj)
      have c: "\<forall>q<length (x # xs). (x # xs) ! q \<le> (x # xs) ! Suc p"
        using p by (auto simp: nth_Cons' less_Suc_eq_0_disj)
      have "Suc p < length (x # xs) \<and> argmax_scan b bi off (x # xs) = off + Suc p \<and>
          b < (x # xs) ! Suc p"
        using p True by simp
      with a c show ?thesis by blast
    qed
  next
    case False
    from Cons.IH [of b bi "Suc off"] show ?thesis
    proof
      assume "argmax_scan b bi (Suc off) xs = bi \<and> (\<forall>y\<in>set xs. y \<le> b)"
      with False show ?thesis by auto
    next
      assume "\<exists>p<length xs. argmax_scan b bi (Suc off) xs = Suc off + p \<and> b < xs ! p \<and>
        (\<forall>q<p. xs ! q < xs ! p) \<and> (\<forall>q<length xs. xs ! q \<le> xs ! p)"
      then obtain p where p: "p < length xs" "argmax_scan b bi (Suc off) xs = Suc off + p"
        "b < xs ! p" "\<forall>q<p. xs ! q < xs ! p" "\<forall>q<length xs. xs ! q \<le> xs ! p"
        by blast
      have a: "\<forall>q<Suc p. (x # xs) ! q < (x # xs) ! Suc p"
        using p False by (auto simp: nth_Cons' less_Suc_eq_0_disj)
      have c: "\<forall>q<length (x # xs). (x # xs) ! q \<le> (x # xs) ! Suc p"
        using p False by (auto simp: nth_Cons' less_Suc_eq_0_disj)
      have "Suc p < length (x # xs) \<and> argmax_scan b bi off (x # xs) = off + Suc p \<and>
          b < (x # xs) ! Suc p"
        using p False by simp
      with a c show ?thesis by blast
    qed
  qed
qed

lemma argmax_first:
  assumes "xs \<noteq> []"
  shows "\<exists>k<length xs. argmax xs = Inr k \<and> (\<forall>q<length xs. xs ! q \<le> xs ! k) \<and>
           (\<forall>q<k. xs ! q < xs ! k)"
proof -
  from assms obtain x rest where xs: "xs = x # rest" by (cases xs) auto
  from argmax_scan_spec [of x 0 1 rest] show ?thesis
  proof
    assume h: "argmax_scan x 0 1 rest = 0 \<and> (\<forall>y\<in>set rest. y \<le> x)"
    have "\<forall>q<length xs. xs ! q \<le> xs ! 0"
      using h xs by (auto simp: nth_Cons')
    with h xs have "0 < length xs \<and> argmax xs = Inr 0 \<and> (\<forall>q<length xs. xs ! q \<le> xs ! 0) \<and>
           (\<forall>q<0. xs ! q < xs ! 0)"
      by (simp add: argmax_def)
    then show ?thesis by blast
  next
    assume "\<exists>p<length rest. argmax_scan x 0 1 rest = 1 + p \<and> x < rest ! p \<and>
        (\<forall>q<p. rest ! q < rest ! p) \<and> (\<forall>q<length rest. rest ! q \<le> rest ! p)"
    then obtain p where p: "p < length rest" "argmax_scan x 0 1 rest = 1 + p"
        "x < rest ! p" "\<forall>q<p. rest ! q < rest ! p" "\<forall>q<length rest. rest ! q \<le> rest ! p"
      by blast
    have a: "\<forall>q<Suc p. xs ! q < xs ! Suc p"
      using p xs by (auto simp: nth_Cons' less_Suc_eq_0_disj)
    have c: "\<forall>q<length xs. xs ! q \<le> xs ! Suc p"
      using p xs by (auto simp: nth_Cons' less_Suc_eq_0_disj)
    have "Suc p < length xs \<and> argmax xs = Inr (Suc p)"
      using p xs by (simp add: argmax_def)
    with a c show ?thesis by blast
  qed
qed

section \<open>The masked score matrix\<close>

lemma div_mod_bounds:
  assumes "(k::nat) < r * c"
  shows "k div c < r" and "k mod c < c"
proof -
  from assms have c: "0 < c" by (cases c) auto
  show "k mod c < c" using c by simp
  show "k div c < r" using assms c by (simp add: less_mult_imp_div_less)
qed

lemma elem_tabulate2:
  assumes "i < r" "j < c"
  shows "elem (tabulate2 r c f) i j = f i j"
proof -
  have "i * c + j < r * c"
  proof -
    have "i * c + j < i * c + c" using assms by simp
    also have "\<dots> = Suc i * c" by simp
    also have "\<dots> \<le> r * c" using assms by (intro mult_le_mono1) simp
    finally show ?thesis .
  qed
  moreover have "(i * c + j) div c = i" "(i * c + j) mod c = j"
    using assms by simp_all
  ultimately show ?thesis
    by (simp add: elem_def tabulate2_def)
qed

lemma tabulate2_cong:
  assumes "\<And>i j. i < r \<Longrightarrow> j < c \<Longrightarrow> f i j = g i j"
  shows "tabulate2 r c f = tabulate2 r c g"
  unfolding tabulate2_def using assms div_mod_bounds by auto

lemma triu_tabulate2:
  "triu (tabulate2 r c f) k = tabulate2 r c (\<lambda>i j. if int j \<le> int i + k - 1 then 0 else f i j)"
proof -
  have "triu (tabulate2 r c f) k =
      tabulate2 r c (\<lambda>i j. if int j \<le> int i + k - 1 then 0 else elem (tabulate2 r c f) i j)"
    by (simp add: triu_def tabulate2_def)
  also have "\<dots> = tabulate2 r c (\<lambda>i j. if int j \<le> int i + k - 1 then 0 else f i j)"
    by (rule tabulate2_cong) (simp add: elem_tabulate2)
  finally show ?thesis .
qed

lemma tril_tabulate2:
  "tril (tabulate2 r c f) k = tabulate2 r c (\<lambda>i j. if int j \<le> int i + k then f i j else 0)"
proof -
  have "tril (tabulate2 r c f) k =
      tabulate2 r c (\<lambda>i j. if int j \<le> int i + k then elem (tabulate2 r c f) i j else 0)"
    by (simp add: tril_def tabulate2_def)
  also have "\<dots> = tabulate2 r c (\<lambda>i j. if int j \<le> int i + k then f i j else 0)"
    by (rule tabulate2_cong) (simp add: elem_tabulate2)
  finally show ?thesis .
qed

lemma outer_product:
  "matmul \<lparr>shape = (length a, 1), data = a\<rparr> \<lparr>shape = (1, length b), data = b\<rparr> =
     Inr (tabulate2 (length a) (length b) (\<lambda>i j. a ! i * b ! j))"
proof -
  have "tabulate2 (length a) (length b)
          (\<lambda>i j. sum_list (map (\<lambda>l. elem \<lparr>shape = (length a, 1), data = a\<rparr> i l *
                                      elem \<lparr>shape = (1, length b), data = b\<rparr> l j) [0..<1])) =
        tabulate2 (length a) (length b) (\<lambda>i j. a ! i * b ! j)"
    by (rule tabulate2_cong) (simp add: elem_def)
  then show ?thesis by (simp add: matmul_def)
qed

text \<open>
  The reshapes of the two context slices succeed when the context length is negative (the
  unknown dimension) or equal to the length of the slice.
\<close>

lemma reshape_column:
  "reshape a (d, 1) =
     (if 0 \<le> d \<and> int (length a) \<noteq> d then Inl ValueError
      else Inr \<lparr>shape = (length a, 1), data = a\<rparr>)"
  by (auto simp: reshape_def)

lemma reshape_row:
  "reshape b (1, d) =
     (if 0 \<le> d \<and> int (length b) \<noteq> d then Inl ValueError
      else Inr \<lparr>shape = (1, length b), data = b\<rparr>)"
  by (auto simp: reshape_def)

lemma masked_matrix:
  "tril (triu (tabulate2 r c (\<lambda>i j. a ! i * b ! j)) 0) 16 = tabulate2 r c (masked_score a b)"
  unfolding triu_tabulate2 tril_tabulate2
  by (rule tabulate2_cong) (auto simp: masked_score_def)

lemma scorer_unfold:
  assumes "ce - cs < 0 \<or> int (length (py_slice s cs ce)) = ce - cs"
    and "ce - cs < 0 \<or> int (length (py_slice e cs ce)) = ce - cs"
  shows "find_best_answer_window s e cs ce =
     (let a = py_slice s cs ce; b = py_slice e cs ce;
          m = tabulate2 (length a) (length b) (masked_score a b) in
      case argmax (flatten m) of Inl err \<Rightarrow> Inl err
      | Inr k \<Rightarrow> (case np_divmod k (length b) of
             (max_s, max_e) \<Rightarrow> (case getitem2 m max_s max_e of Inl err \<Rightarrow> Inl err
           | Inr v \<Rightarrow> Inr (v, max_s, max_e))))"
proof -
  have sh: "snd (shape (tabulate2 r c f)) = c" for r c f
    by (simp add: tabulate2_def)
  have ra: "reshape (py_slice s cs ce) (ce - cs, 1) =
      Inr \<lparr>shape = (length (py_slice s cs ce), 1), data = py_slice s cs ce\<rparr>"
    using assms(1) by (auto simp: reshape_column)
  have rb: "reshape (py_slice e cs ce) (1, ce - cs) =
      Inr \<lparr>shape = (1, length (py_slice e cs ce)), data = py_slice e cs ce\<rparr>"
    using assms(2) by (auto simp: reshape_row)
  show ?thesis
    unfolding find_best_answer_window_def Let_def ra rb
    by (simp add: outer_product [simplified] masked_matrix sh cong: sum.case_cong)
qed

lemma scorer_reshape_error:
  assumes "(0 \<le> ce - cs \<and> int (length (py_slice s cs ce)) \<noteq> ce - cs) \<or>
           (0 \<le> ce - cs \<and> int (length (py_slice e cs ce)) \<noteq> ce - cs)"
  shows "find_best_answer_window s e cs ce = Inl ValueError"
  using assms unfolding find_best_answer_window_def Let_def reshape_column reshape_row
  by auto

lemma scorer_empty_error:
  assumes "py_slice s cs ce = [] \<or> py_slice e cs ce = []"
  shows "find_best_answer_window s e cs ce = Inl ValueError"
proof (cases "(0 \<le> ce - cs \<and> int (length (py_slice s cs ce)) \<noteq> ce - cs) \<or>
           (0 \<le> ce - cs \<and> int (length (py_slice e cs ce)) \<noteq> ce - cs)")
  case True
  then show ?thesis by (rule scorer_reshape_error)
next
  case False
  then have ok: "ce - cs < 0 \<or> int (length (py_slice s cs ce)) = ce - cs"
    "ce - cs < 0 \<or> int (length (py_slice e cs ce)) = ce - cs" by auto
  have "flatten (tabulate2 (length (py_slice s cs ce)) (length (py_slice e cs ce)) f) = []" for f
    using assms by (auto simp: flatten_def tabulate2_def)
  then show ?thesis
    unfolding scorer_unfold [OF ok] Let_def by (simp add: argmax_def)
qed

text \<open>
  When both reshapes succeed and the matrix is not empty, the scorer returns the first
  maximum of the masked matrix, in row-major order.
\<close>

lemma window_first_max:
  assumes "ce - cs < 0 \<or> int (length (py_slice s cs ce)) = ce - cs"
    and "ce - cs < 0 \<or> int (length (py_slice e cs ce)) = ce - cs"
    and "py_slice s cs ce \<noteq> []" "py_slice e cs ce \<noteq> []"
  defines "a \<equiv> py_slice s cs ce" and "b \<equiv> py_slice e cs ce"
  defines "g \<equiv> \<lambda>k. masked_score a b (k div length b) (k mod length b)"
  shows "\<exists>k<length a * length b.
           find_best_answer_window s e cs ce = Inr (g k, k div length b, k mod length b) \<and>
           (\<forall>q<length a * length b. g q \<le> g k) \<and> (\<forall>q<k. g q < g k)"
proof -
  let ?r = "length a" and ?c = "length b"
  let ?m = "tabulate2 ?r ?c (masked_score a b)"
  have pos: "0 < ?r" "0 < ?c" using assms(3,4) by (simp_all add: a_def b_def)
  have fl: "flatten ?m = map g [0..<?r * ?c]"
    by (simp add: flatten_def tabulate2_def g_def)
  have len: "length (flatten ?m) = ?r * ?c" using fl by simp
  have "flatten ?m \<noteq> []" using pos fl by simp
  from argmax_first [OF this] obtain k where k: "k < ?r * ?c" "argmax (flatten ?m) = Inr k"
    "\<forall>q<?r * ?c. flatten ?m ! q \<le> flatten ?m ! k" "\<forall>q<k. flatten ?m ! q < flatten ?m ! k"
    unfolding len by blast
  have nth: "flatten ?m ! q = g q" if "q < ?r * ?c" for q
    using that by (simp add: fl)
  have b: "k div ?c < ?r" "k mod ?c < ?c" using div_mod_bounds [OF k(1)] by simp_all
  have sh: "shape ?m = (?r, ?c)" by (simp add: tabulate2_def)
  have get: "getitem2 ?m (k div ?c) (k mod ?c) = Inr (g k)"
    using b by (simp add: getitem2_def sh elem_tabulate2 [OF b] g_def)
  have res: "find_best_answer_window s e cs ce = Inr (g k, k div ?c, k mod ?c)"
    unfolding scorer_unfold [OF assms(1,2)] Let_def a_def [symmetric] b_def [symmetric]
    using k(2) get pos(2) by (simp add: np_divmod_def)
  have mx: "\<forall>q<?r * ?c. g q \<le> g k" using k(1,3) nth by simp
  have fst: "\<forall>q<k. g q < g k" using k(1,4) nth by simp
  from k(1) res mx fst show ?thesis by blast
qed

lemma lex_flat:
  assumes "(j::nat) < n" "j' < n" "i * n + j \<le> i' * n + j'"
  shows "i < i' \<or> (i = i' \<and> j \<le> j')"
proof (rule ccontr)
  assume "\<not> ?thesis"
  then have c: "i' < i \<or> (i = i' \<and> j' < j)" by auto
  show False
  proof (cases "i' < i")
    case True
    then have "Suc i' * n \<le> i * n" by (intro mult_le_mono1) simp
    then have "i' * n + j' < i * n + j" using assms(2) by simp
    with assms(3) show False by simp
  next
    case False
    with c assms(3) show False by simp
  qed
qed

lemma flat_index:
  assumes "(i::nat) < r" "j < c"
  shows "i * c + j < r * c" "(i * c + j) div c = i" "(i * c + j) mod c = j"
proof -
  have "i * c + j < Suc i * c" using assms by simp
  also have "\<dots> \<le> r * c" using assms by (intro mult_le_mono1) simp
  finally show "i * c + j < r * c" .
  show "(i * c + j) div c = i" "(i * c + j) mod c = j" using assms by simp_all
qed

lemma set_py_slice: "set (py_slice xs lo hi) \<subseteq> set xs"
proof -
  have "set (take n (drop k xs)) \<subseteq> set xs" for n k
    using set_take_subset [of n "drop k xs"] set_drop_subset [of k xs] by blast
  then show ?thesis by (simp add: py_slice_def Let_def)
qed

lemma window_valid:
  assumes "ce - cs < 0 \<or> int (length (py_slice s cs ce)) = ce - cs"
    and "ce - cs < 0 \<or> int (length (py_slice e cs ce)) = ce - cs"
    and "py_slice s cs ce \<noteq> []" "py_slice e cs ce \<noteq> []"
    and "\<forall>x\<in>set s. 0 \<le> x" "\<forall>x\<in>set e. 0 \<le> x"
  defines "a \<equiv> py_slice s cs ce" and "b \<equiv> py_slice e cs ce"
  shows "\<exists>i j. find_best_answer_window s e cs ce = Inr (a ! i * b ! j, i, j) \<and>
           i \<le> j \<and> j \<le> i + 16 \<and> i < length a \<and> j < length b \<and>
           (\<forall>i' j'. i' \<le> j' \<and> j' \<le> i' + 16 \<and> i' < length a \<and> j' < length b \<longrightarrow>
              a ! i' * b ! j' \<le> a ! i * b ! j) \<and>
           (\<forall>i' j'. i' \<le> j' \<and> j' \<le> i' + 16 \<and> i' < length a \<and> j' < length b \<and>
              a ! i' * b ! j' = a ! i * b ! j \<longrightarrow> i < i' \<or> (i = i' \<and> j \<le> j'))"
proof -
  define r where "r = length a"
  define c where "c = length b"
  define g where "g = (\<lambda>k. masked_score a b (k div c) (k mod c))"
  define P where "P = (\<lambda>i j. a ! i * b ! j)"
  have pos: "0 < r" "0 < c" using assms(3,4) by (simp_all add: r_def c_def a_def b_def)
  from window_first_max [OF assms(1-4)] obtain k where k: "k < r * c"
    "find_best_answer_window s e cs ce = Inr (g k, k div c, k mod c)"
    "\<forall>q<r * c. g q \<le> g k" "\<forall>q<k. g q < g k"
    unfolding r_def c_def g_def a_def b_def by blast
  have valid: "g (i * c + j) = P i j" if "i \<le> j" "j \<le> i + 16" "i < r" "j < c" for i j
    using flat_index [OF that(3,4)] that(1,2) by (simp add: g_def masked_score_def P_def)
  have "a ! 0 \<in> set s" "b ! 0 \<in> set e"
    using pos set_py_slice [of s cs ce] set_py_slice [of e cs ce] nth_mem [of 0 a] nth_mem [of 0 b]
    by (auto simp: r_def c_def a_def b_def)
  then have "0 \<le> a ! 0" "0 \<le> b ! 0" using assms(5,6) by simp_all
  then have p0: "0 \<le> P 0 0" by (simp add: P_def)
  have g0: "g 0 = P 0 0" using valid [of 0 0] pos by simp
  let ?i = "k div c" and ?j = "k mod c"
  have jn: "?j < c" using pos by simp
  have ir: "?i < r" using div_mod_bounds(1) [OF k(1)] .
  have ok: "?i \<le> ?j \<and> ?j \<le> ?i + 16"
  proof (rule ccontr)
    assume bad: "\<not> ?thesis"
    then have z: "g k = 0" by (auto simp: g_def masked_score_def)
    have "k \<noteq> 0"
    proof
      assume "k = 0"
      with bad show False by simp
    qed
    then have "g 0 < g k" using k(4) by simp
    with z g0 p0 show False by simp
  qed
  have gk: "g k = P ?i ?j"
    using valid [of ?i ?j] ok jn ir by simp
  have mx: "P i' j' \<le> P ?i ?j" if "i' \<le> j'" "j' \<le> i' + 16" "i' < r" "j' < c" for i' j'
  proof -
    from flat_index(1) [OF that(3,4)] k(3) have "g (i' * c + j') \<le> g k" by simp
    then show ?thesis using valid [OF that] gk by simp
  qed
  have tie: "?i < i' \<or> (?i = i' \<and> ?j \<le> j')"
    if "i' \<le> j'" "j' \<le> i' + 16" "i' < r" "j' < c" "P i' j' = P ?i ?j" for i' j'
  proof -
    have "g (i' * c + j') = g k" using valid [OF that(1-4)] gk that(5) by simp
    then have "\<not> i' * c + j' < k" using k(4) by auto
    then have "?i * c + ?j \<le> i' * c + j'" by simp
    from lex_flat [OF jn that(4) this] show ?thesis .
  qed
  have "find_best_answer_window s e cs ce = Inr (P ?i ?j, ?i, ?j)"
    using k(2) gk by simp
  with ok jn ir mx tie show ?thesis
    unfolding P_def r_def c_def by blast
qed

text \<open>
  With non-negative bounds the slice \<open>xs[lo:hi]\<close> has the length \<open>hi - lo\<close> exactly when it
  lies inside the sequence.
\<close>

lemma py_slice_inside:
  assumes "0 \<le> lo" "lo \<le> hi" "hi \<le> int (length xs)"
  shows "py_slice xs lo hi = take (nat (hi - lo)) (drop (nat lo) xs)"
    and "length (py_slice xs lo hi) = nat (hi - lo)"
proof -
  have lo: "slice_bound (length xs) lo = nat lo" and hi: "slice_bound (length xs) hi = nat hi"
  proof -
    have "nat lo \<le> length xs" "nat hi \<le> length xs" using assms by simp_all
    then show "slice_bound (length xs) lo = nat lo" "slice_bound (length xs) hi = nat hi"
      using assms by (simp_all add: slice_bound_def)
  qed
  have d: "nat hi - nat lo = nat (hi - lo)"
    using assms by (simp add: nat_diff_distrib)
  show "py_slice xs lo hi = take (nat (hi - lo)) (drop (nat lo) xs)"
    by (simp add: py_slice_def lo hi d Let_def)
  have "nat hi \<le> length xs" using assms by simp
  then show "length (py_slice xs lo hi) = nat (hi - lo)"
    by (simp add: py_slice_def lo hi d [symmetric] Let_def)
qed

lemma py_slice_nth:
  assumes "0 \<le> lo" "lo \<le> hi" "hi \<le> int (length xs)" "i < nat (hi - lo)"
  shows "py_slice xs lo hi ! i = xs ! (nat lo + i)"
  using assms by (simp add: py_slice_inside(1))

lemma py_slice_backwards:
  assumes "0 \<le> lo" "0 \<le> hi" "hi \<le> lo"
  shows "py_slice xs lo hi = []"
proof -
  have "nat hi \<le> nat lo" using assms by simp
  then have "slice_bound (length xs) hi \<le> slice_bound (length xs) lo"
    using assms by (simp add: slice_bound_def min.coboundedI1)
  then show ?thesis by (simp add: py_slice_def Let_def)
qed

lemma py_slice_overrun:
  assumes "0 \<le> lo" "lo < hi" "int (length xs) < hi"
  shows "int (length (py_slice xs lo hi)) < hi - lo"
  using assms by (auto simp: py_slice_def slice_bound_def Let_def min_def)

text \<open>With non-negative bounds, the scorer fails exactly outside the in-range contexts.\<close>

lemma scorer_error_iff:
  assumes "0 \<le> cs" "0 \<le> ce"
  shows "(\<exists>w. find_best_answer_window s e cs ce = Inr w) \<longleftrightarrow>
           cs < ce \<and> ce \<le> int (length s) \<and> ce \<le> int (length e)"
    and "(find_best_answer_window s e cs ce = Inl ValueError) \<longleftrightarrow>
           ce \<le> cs \<or> int (length s) < ce \<or> int (length e) < ce"
proof -
  have bad: "find_best_answer_window s e cs ce = Inl ValueError"
    if "ce \<le> cs \<or> int (length s) < ce \<or> int (length e) < ce"
  proof (cases "ce \<le> cs")
    case True
    have "py_slice s cs ce = []" using assms True by (rule py_slice_backwards)
    then show ?thesis
      by (intro scorer_empty_error) simp
  next
    case False
    then have lt: "cs < ce" by simp
    from that False have "int (length s) < ce \<or> int (length e) < ce" by simp
    then have "int (length (py_slice s cs ce)) < ce - cs \<or>
               int (length (py_slice e cs ce)) < ce - cs"
      using py_slice_overrun [OF assms(1) lt] by blast
    then show ?thesis using lt by (intro scorer_reshape_error) auto
  qed
  have good: "\<exists>w. find_best_answer_window s e cs ce = Inr w"
    if "cs < ce \<and> ce \<le> int (length s) \<and> ce \<le> int (length e)"
  proof -
    from that have r: "cs \<le> ce" "ce \<le> int (length s)" "ce \<le> int (length e)" by simp_all
    have l: "length (py_slice s cs ce) = nat (ce - cs)" "length (py_slice e cs ce) = nat (ce - cs)"
      using py_slice_inside(2) [OF assms(1) r(1,2)] py_slice_inside(2) [OF assms(1) r(1,3)]
      by simp_all
    have ne: "py_slice s cs ce \<noteq> []" "py_slice e cs ce \<noteq> []"
      using l that by auto
    have ok: "ce - cs < 0 \<or> int (length (py_slice s cs ce)) = ce - cs"
      "ce - cs < 0 \<or> int (length (py_slice e cs ce)) = ce - cs"
      using l that by simp_all
    from window_first_max [OF ok ne] show ?thesis by blast
  qed
  show "(\<exists>w. find_best_answer_window s e cs ce = Inr w) \<longleftrightarrow>
           cs < ce \<and> ce \<le> int (length s) \<and> ce \<le> int (length e)"
    using bad good by (cases "cs < ce \<and> ce \<le> int (length s) \<and> ce \<le> int (length e)") auto
  show "(find_best_answer_window s e cs ce = Inl ValueError) \<longleftrightarrow>
           ce \<le> cs \<or> int (length s) < ce \<or> int (length e) < ce"
    using bad good by (cases "cs < ce \<and> ce \<le> int (length s) \<and> ce \<le> int (length e)") auto
qed

text \<open>The window of an in-range, non-empty context on non-negative scores.\<close>

lemma window_nonneg:
  assumes "0 \<le> cs" "cs < ce" "ce \<le> int (length s)" "ce \<le> int (length e)"
    and "\<forall>x\<in>set s. 0 \<le> x" "\<forall>x\<in>set e. 0 \<le> x"
  shows "\<exists>i j. find_best_answer_window s e cs ce =
             Inr (s ! (nat cs + i) * e ! (nat cs + j), i, j) \<and>
           i \<le> j \<and> j \<le> i + 16 \<and> j < nat (ce - cs) \<and>
           (\<forall>i' j'. i' \<le> j' \<and> j' \<le> i' + 16 \<and> j' < nat (ce - cs) \<longrightarrow>
              s ! (nat cs + i') * e ! (nat cs + j') \<le> s ! (nat cs + i) * e ! (nat cs + j)) \<and>
           (\<forall>i' j'. i' \<le> j' \<and> j' \<le> i' + 16 \<and> j' < nat (ce - cs) \<and>
              s ! (nat cs + i') * e ! (nat cs + j') = s ! (nat cs + i) * e ! (nat cs + j) \<longrightarrow>
              i < i' \<or> (i = i' \<and> j \<le> j'))"
proof -
  define n where "n = nat (ce - cs)"
  define a where "a = py_slice s cs ce"
  define b where "b = py_slice e cs ce"
  have le: "cs \<le> ce" using assms(2) by simp
  have l: "length a = n" "length b = n"
    using py_slice_inside(2) [OF assms(1) le assms(3)] py_slice_inside(2) [OF assms(1) le assms(4)]
    by (simp_all add: a_def b_def n_def)
  have n: "0 < n" using assms(2) by (simp add: n_def)
  have ne: "py_slice s cs ce \<noteq> []" "py_slice e cs ce \<noteq> []"
    using l n by (auto simp: a_def b_def)
  have ok: "ce - cs < 0 \<or> int (length (py_slice s cs ce)) = ce - cs"
      "ce - cs < 0 \<or> int (length (py_slice e cs ce)) = ce - cs"
    using l assms(2) by (simp_all add: a_def b_def n_def)
  have ai: "a ! i = s ! (nat cs + i)" if "i < n" for i
    using py_slice_nth [OF assms(1) le assms(3)] that by (simp add: a_def n_def)
  have bi: "b ! i = e ! (nat cs + i)" if "i < n" for i
    using py_slice_nth [OF assms(1) le assms(4)] that by (simp add: b_def n_def)
  from window_valid [OF ok ne assms(5,6)] obtain i j where w:
    "find_best_answer_window s e cs ce = Inr (a ! i * b ! j, i, j)"
    "i \<le> j" "j \<le> i + 16" "i < n" "j < n"
    "\<forall>i' j'. i' \<le> j' \<and> j' \<le> i' + 16 \<and> i' < n \<and> j' < n \<longrightarrow> a ! i' * b ! j' \<le> a ! i * b ! j"
    "\<forall>i' j'. i' \<le> j' \<and> j' \<le> i' + 16 \<and> i' < n \<and> j' < n \<and>
              a ! i' * b ! j' = a ! i * b ! j \<longrightarrow> i < i' \<or> (i = i' \<and> j \<le> j')"
    unfolding a_def [symmetric] b_def [symmetric] l by blast
  have res: "find_best_answer_window s e cs ce = Inr (s ! (nat cs + i) * e ! (nat cs + j), i, j)"
    using w(1,4,5) by (simp add: ai bi)
  have mx: "s ! (nat cs + i') * e ! (nat cs + j') \<le> s ! (nat cs + i) * e ! (nat cs + j)"
    if "i' \<le> j'" "j' \<le> i' + 16" "j' < n" for i' j'
  proof -
    have "i' < n" using that by simp
    with w(6) that have "a ! i' * b ! j' \<le> a ! i * b ! j" by blast
    then show ?thesis using \<open>i' < n\<close> that(3) w(4,5) by (simp add: ai bi)
  qed
  have tie: "i < i' \<or> (i = i' \<and> j \<le> j')"
    if "i' \<le> j'" "j' \<le> i' + 16" "j' < n"
      "s ! (nat cs + i') * e ! (nat cs + j') = s ! (nat cs + i) * e ! (nat cs + j)" for i' j'
  proof -
    have "i' < n" using that by simp
    then have "a ! i' * b ! j' = a ! i * b ! j" using that(3,4) w(4,5) by (simp add: ai bi)
    with w(7) that \<open>i' < n\<close> show ?thesis by blast
  qed
  from res w(2,3,5) mx tie show ?thesis unfolding n_def by blast
qed

section \<open>The masked score matrix with rounded products\<close>

lemma foldl_plain_sum:
  "foldl (\<lambda>acc l. acc + f l) z xs = z + sum_list (map f xs)"
  by (induction xs arbitrary: z) (simp_all add: add.assoc)

lemma matmul_fl_exact: "matmul_fl (\<lambda>x. x) a b = matmul a b"
  by (simp add: matmul_fl_def matmul_def foldl_plain_sum split: prod.splits)

text \<open>Without rounding the two scorers agree.\<close>

lemma scorer_fl_exact:
  "find_best_answer_window_fl (\<lambda>x. x) s e cs ce = find_best_answer_window s e cs ce"
  unfolding find_best_answer_window_fl_def find_best_answer_window_def matmul_fl_exact ..

lemma outer_product_fl:
  assumes "\<And>x. rnd (rnd x) = rnd x"
  shows "matmul_fl rnd \<lparr>shape = (length a, 1), data = a\<rparr> \<lparr>shape = (1, length b), data = b\<rparr> =
     Inr (tabulate2 (length a) (length b) (\<lambda>i j. rnd (a ! i * b ! j)))"
proof -
  have "tabulate2 (length a) (length b)
          (\<lambda>i j. foldl (\<lambda>acc l. rnd (acc + rnd (elem \<lparr>shape = (length a, 1), data = a\<rparr> i l *
                                      elem \<lparr>shape = (1, length b), data = b\<rparr> l j))) 0 [0..<1]) =
        tabulate2 (length a) (length b) (\<lambda>i j. rnd (a ! i * b ! j))"
    by (rule tabulate2_cong) (simp add: elem_def assms)
  then show ?thesis by (simp add: matmul_fl_def)
qed

lemma masked_matrix_fl:
  "tril (triu (tabulate2 r c (\<lambda>i j. rnd (a ! i * b ! j))) 0) 16 =
     tabulate2 r c (masked_score_fl rnd a b)"
  unfolding triu_tabulate2 tril_tabulate2
  by (rule tabulate2_cong) (auto simp: masked_score_fl_def)

lemma scorer_fl_unfold:
  assumes "\<And>x. rnd (rnd x) = rnd x"
    and "ce - cs < 0 \<or> int (length (py_slice s cs ce)) = ce - cs"
    and "ce - cs < 0 \<or> int (length (py_slice e cs ce)) = ce - cs"
  shows "find_best_answer_window_fl rnd s e cs ce =
     (let a = py_slice s cs ce; b = py_slice e cs ce;
          m = tabulate2 (length a) (length b) (masked_score_fl rnd a b) in
      case argmax (flatten m) of Inl err \<Rightarrow> Inl err
      | Inr k \<Rightarrow> (case np_divmod k (length b) of
             (max_s, max_e) \<Rightarrow> (case getitem2 m max_s max_e of Inl err \<Rightarrow> Inl err
           | Inr v \<Rightarrow> Inr (v, max_s, max_e))))"
proof -
  have sh: "snd (shape (tabulate2 r c f)) = c" for r c f
    by (simp add: tabulate2_def)
  have ra: "reshape (py_slice s cs ce) (ce - cs, 1) =
      Inr \<lparr>shape = (length (py_slice s cs ce), 1), data = py_slice s cs ce\<rparr>"
    using assms(2) by (auto simp: reshape_column)
  have rb: "reshape (py_slice e cs ce) (1, ce - cs) =
      Inr \<lparr>shape = (1, length (py_slice e cs ce)), data = py_slice e cs ce\<rparr>"
    using assms(3) by (auto simp: reshape_row)
  show ?thesis
    unfolding find_best_answer_window_fl_def Let_def ra rb
    by (simp add: outer_product_fl [OF assms(1), simplified] masked_matrix_fl sh
          cong: sum.case_cong)
qed

lemma window_fl_first_max:
  assumes "\<And>x. rnd (rnd x) = rnd x"
    and "ce - cs < 0 \<or> int (length (py_slice s cs ce)) = ce - cs"
    and "ce - cs < 0 \<or> int (length (py_slice e cs ce)) = ce - cs"
    and "py_slice s cs ce \<noteq> []" "py_slice e cs ce \<noteq> []"
  defines "a \<equiv> py_slice s cs ce" and "b \<equiv> py_slice e cs ce"
  defines "g \<equiv> \<lambda>k. masked_score_fl rnd a b (k div length b) (k mod length b)"
  shows "\<exists>k<length a * length b.
           find_best_answer_window_fl rnd s e cs ce = Inr (g k, k div length b, k mod length b) \<and>
           (\<forall>q<length a * length b. g q \<le> g k) \<and> (\<forall>q<k. g q < g k)"
proof -
  let ?r = "length a" and ?c = "length b"
  let ?m = "tabulate2 ?r ?c (masked_score_fl rnd a b)"
  have pos: "0 < ?r" "0 < ?c" using assms(4,5) by (simp_all add: a_def b_def)
  have fl: "flatten ?m = map g [0..<?r * ?c]"
    by (simp add: flatten_def tabulate2_def g_def)
  have len: "length (flatten ?m) = ?r * ?c" using fl by simp
  have "flatten ?m \<noteq> []" using pos fl by simp
  from argmax_first [OF this] obtain k where k: "k < ?r * ?c" "argmax (flatten ?m) = Inr k"
    "\<forall>q<?r * ?c. flatten ?m ! q \<le> flatten ?m ! k" "\<forall>q<k. flatten ?m ! q < flatten ?m ! k"
    unfolding len by blast
  have nth: "flatten ?m ! q = g q" if "q < ?r * ?c" for q
    using that by (simp add: fl)
  have b: "k div ?c < ?r" "k mod ?c < ?c" using div_mod_bounds [OF k(1)] by simp_all
  have sh: "shape ?m = (?r, ?c)" by (simp add: tabulate2_def)
  have get: "getitem2 ?m (k div ?c) (k mod ?c) = Inr (g k)"
    using b by (simp add: getitem2_def sh elem_tabulate2 [OF b] g_def)
  have res: "find_best_answer_window_fl rnd s e cs ce = Inr (g k, k div ?c, k mod ?c)"
    unfolding scorer_fl_unfold [OF assms(1,2,3)] Let_def a_def [symmetric] b_def [symmetric]
    using k(2) get pos(2) by (simp add: np_divmod_def)
  have mx: "\<forall>q<?r * ?c. g q \<le> g k" using k(1,3) nth by simp
  have fst: "\<forall>q<k. g q < g k" using k(1,4) nth by simp
  from k(1) res mx fst show ?thesis by blast
qed

text \<open>
  The window of an in-range, non-empty context on non-negative scores, when the rounding
  leaves rounded numbers as they are and keeps non-negative numbers non-negative.
\<close>

lemma window_fl_nonneg:
  assumes "\<And>x. rnd (rnd x) = rnd x" "\<And>x. 0 \<le> x \<Longrightarrow> 0 \<le> rnd x"
    and "0 \<le> cs" "cs < ce" "ce \<le> int (length s)" "ce \<le> int (length e)"
    and "\<forall>x\<in>set s. 0 \<le> x" "\<forall>x\<in>set e. 0 \<le> x"
  shows "\<exists>i j. find_best_answer_window_fl rnd s e cs ce =
             Inr (rnd (s ! (nat cs + i) * e ! (nat cs + j)), i, j) \<and>
           i \<le> j \<and> j \<le> i + 16 \<and> j < nat (ce - cs) \<and>
           (\<forall>i' j'. i' \<le> j' \<and> j' \<le> i' + 16 \<and> j' < nat (ce - cs) \<longrightarrow>
              rnd (s ! (nat cs + i') * e ! (nat cs + j')) \<le> rnd (s ! (nat cs + i) * e ! (nat cs + j))) \<and>
           (\<forall>i' j'. i' \<le> j' \<and> j' \<le> i' + 16 \<and> j' < nat (ce - cs) \<and>
              rnd (s ! (nat cs + i') * e ! (nat cs + j')) = rnd (s ! (nat cs + i) * e ! (nat cs + j)) \<longrightarrow>
              i < i' \<or> (i = i' \<and> j \<le> j'))"
proof -
  define n where "n = nat (ce - cs)"
  define a where "a = py_slice s cs ce"
  define b where "b = py_slice e cs ce"
  define g where "g = (\<lambda>k. masked_score_fl rnd a b (k div n) (k mod n))"
  define P where "P = (\<lambda>i j. rnd (s ! (nat cs + i) * e ! (nat cs + j)))"
  have le: "cs \<le> ce" using assms(4) by simp
  have l: "length a = n" "length b = n"
    using py_slice_inside(2) [OF assms(3) le assms(5)] py_slice_inside(2) [OF assms(3) le assms(6)]
    by (simp_all add: a_def b_def n_def)
  have n: "0 < n" using assms(4) by (simp add: n_def)
  have ne: "py_slice s cs ce \<noteq> []" "py_slice e cs ce \<noteq> []"
    using l n by (auto simp: a_def b_def)
  have ok: "ce - cs < 0 \<or> int (length (py_slice s cs ce)) = ce - cs"
      "ce - cs < 0 \<or> int (length (py_slice e cs ce)) = ce - cs"
    using l assms(4) by (simp_all add: a_def b_def n_def)
  have ai: "a ! i = s ! (nat cs + i)" if "i < n" for i
    using py_slice_nth [OF assms(3) le assms(5)] that by (simp add: a_def n_def)
  have bi: "b ! i = e ! (nat cs + i)" if "i < n" for i
    using py_slice_nth [OF assms(3) le assms(6)] that by (simp add: b_def n_def)
  from window_fl_first_max [OF assms(1) ok ne] obtain k where k: "k < n * n"
    "find_best_answer_window_fl rnd s e cs ce = Inr (g k, k div n, k mod n)"
    "\<forall>q<n * n. g q \<le> g k" "\<forall>q<k. g q < g k"
    unfolding a_def [symmetric] b_def [symmetric] l g_def by blast
  have valid: "g (i * n + j) = P i j" if "i \<le> j" "j \<le> i + 16" "j < n" for i j
  proof -
    have i: "i < n" using that by simp
    from flat_index [OF i that(3)] that(1,2) show ?thesis
      by (simp add: g_def masked_score_fl_def P_def ai [OF i] bi [OF that(3)])
  qed
  have "nat cs < length s" "nat cs < length e" using assms(3,4,5,6) by simp_all
  then have "0 \<le> s ! nat cs" "0 \<le> e ! nat cs" using assms(7,8) by simp_all
  then have "0 \<le> s ! nat cs * e ! nat cs" by simp
  then have p0: "0 \<le> P 0 0" unfolding P_def using assms(2) by simp
  have g0: "g 0 = P 0 0" using valid [of 0 0] n by simp
  let ?i = "k div n" and ?j = "k mod n"
  have jn: "?j < n" using n by simp
  have ok: "?i \<le> ?j \<and> ?j \<le> ?i + 16"
  proof (rule ccontr)
    assume bad: "\<not> ?thesis"
    then have z: "g k = 0" by (auto simp: g_def masked_score_fl_def)
    have "k \<noteq> 0"
    proof
      assume "k = 0"
      with bad show False by simp
    qed
    then have "g 0 < g k" using k(4) by simp
    with z g0 p0 show False by simp
  qed
  have gk: "g k = P ?i ?j"
    using valid [of ?i ?j] ok jn by simp
  have mx: "P i' j' \<le> P ?i ?j" if "i' \<le> j'" "j' \<le> i' + 16" "j' < n" for i' j'
  proof -
    have "i' < n" using that by simp
    from flat_index(1) [OF this that(3)] k(3) have "g (i' * n + j') \<le> g k" by simp
    then show ?thesis using valid [OF that] gk by simp
  qed
  have tie: "?i < i' \<or> (?i = i' \<and> ?j \<le> j')"
    if "i' \<le> j'" "j' \<le> i' + 16" "j' < n" "P i' j' = P ?i ?j" for i' j'
  proof -
    have "g (i' * n + j') = g k" using valid [OF that(1-3)] gk that(4) by simp
    then have "\<not> i' * n + j' < k" using k(4) by auto
    then have "?i * n + ?j \<le> i' * n + j'" by simp
    from lex_flat [OF jn that(3) this] show ?thesis .
  qed
  have "find_best_answer_window_fl rnd s e cs ce = Inr (P ?i ?j, ?i, ?j)"
    using k(2) gk by simp
  with ok jn mx tie show ?thesis
    unfolding P_def n_def by blast
qed

lemma round16_idem: "round16 (round16 x) = round16 x"
  by (simp add: round16_def)

lemma round16_nonneg: "0 \<le> x \<Longrightarrow> 0 \<le> round16 x"
proof -
  assume "0 \<le> x"
  then have "(0::real) \<le> x * 16" by simp
  then have "round (0::real) \<le> round (x * 16)" by (rule round_mono)
  then show ?thesis by (simp add: round16_def)
qed

lemma round16_eval:
  "round16 (1 / 16) = 1 / 16" "round16 (15 / 256) = 1 / 16" "round16 (135 / 2048) = 1 / 16"
  "round16 (9 / 128) = 1 / 16"
  by (simp_all add: round16_def round_def)

section \<open>The store model computes the same window\<close>

lemma load_vec_append:
  assumes "vbuf a < length h"
  shows "load_vec (h @ hs) a = load_vec h a"
  using assms by (simp add: load_vec_def nth_append)

lemma load_mat_append:
  assumes "mbuf m < length h"
  shows "load_mat (h @ hs) m = load_mat h m"
  using assms by (simp add: load_mat_def nth_append)

lemma valid_view_append:
  assumes "valid_view h a"
  shows "valid_view (h @ hs) a"
  using assms by (simp add: valid_view_def nth_append)

lemma length_load_vec:
  assumes "valid_view h a"
  shows "length (load_vec h a) = vlen a"
  using assms by (auto simp: valid_view_def load_vec_def)

lemma slice_bound_le: "slice_bound n k \<le> n"
  by (auto simp: slice_bound_def)

lemma slice_view_load:
  assumes "valid_view h a"
  shows "load_vec h (slice_view a lo hi) = py_slice (load_vec h a) lo hi"
    and "valid_view h (slice_view a lo hi)"
    and "vbuf (slice_view a lo hi) = vbuf a"
proof -
  define l where "l = slice_bound (vlen a) lo"
  define u where "u = slice_bound (vlen a) hi"
  have lu: "l \<le> vlen a" "u \<le> vlen a" by (simp_all add: l_def u_def slice_bound_le)
  have len: "length (load_vec h a) = vlen a" using assms by (rule length_load_vec)
  have "take (u - l) (drop l (take (vlen a) (drop (voff a) (h ! vbuf a)))) =
        take (u - l) (drop (voff a + l) (h ! vbuf a))"
    using lu by (simp add: drop_take min_def add.commute)
  then show "load_vec h (slice_view a lo hi) = py_slice (load_vec h a) lo hi"
    unfolding py_slice_def len Let_def slice_view_def l_def [symmetric] u_def [symmetric]
    by (simp add: load_vec_def)
  show "valid_view h (slice_view a lo hi)"
    using assms lu
    unfolding valid_view_def slice_view_def Let_def l_def [symmetric] u_def [symmetric]
    by auto
  show "vbuf (slice_view a lo hi) = vbuf a"
    by (simp add: slice_view_def Let_def)
qed

lemma reshape_view_refines:
  assumes "valid_view h a"
  shows "case reshape_view a newshape of
           Inl err \<Rightarrow> reshape (load_vec h a) newshape = Inl err
         | Inr m \<Rightarrow> reshape (load_vec h a) newshape = Inr (load_mat h m) \<and> mbuf m < length h"
proof -
  obtain r c where rc: "newshape = (r, c)" by (cases newshape)
  have len: "length (load_vec h a) = vlen a" using assms by (rule length_load_vec)
  have buf: "vbuf a < length h" using assms by (simp add: valid_view_def)
  have dm: "take (vlen a) (drop (voff a) (h ! vbuf a)) = load_vec h a"
    by (simp add: load_vec_def)
  have divc: "vlen a div nat k * nat k = vlen a" if "int (vlen a) mod k = 0" "0 < k" for k
  proof -
    have "vlen a mod nat k = 0"
      using that by (metis nat_int nat_mod_distrib of_nat_0_le_iff less_imp_le nat_0)
    then have "nat k dvd vlen a" by (rule mod_0_imp_dvd)
    then show ?thesis by (rule dvd_div_mult_self)
  qed
  have key: "load_mat h \<lparr>mbuf = vbuf a, moff = voff a, mshape = (R, C)\<rparr> =
      \<lparr>shape = (R, C), data = load_vec h a\<rparr>" if "R * C = vlen a" for R C
    using that by (simp add: load_mat_def load_vec_def)
  consider (both) "r < 0" "c < 0" | (rows) "r < 0" "0 \<le> c" | (cols) "0 \<le> r" "c < 0"
    | (known) "0 \<le> r" "0 \<le> c"
    by linarith
  then show ?thesis
  proof cases
    case both
    then show ?thesis by (simp add: rc reshape_view_def reshape_def)
  next
    case rows
    show ?thesis
    proof (cases "c = 0 \<or> int (vlen a) mod c \<noteq> 0")
      case True
      with rows show ?thesis by (simp add: rc reshape_view_def reshape_def len)
    next
      case False
      with rows have "vlen a div nat c * nat c = vlen a" by (intro divc) simp_all
      from key [OF this] False rows buf show ?thesis
        by (simp add: rc reshape_view_def reshape_def len)
    qed
  next
    case cols
    show ?thesis
    proof (cases "r = 0 \<or> int (vlen a) mod r \<noteq> 0")
      case True
      with cols show ?thesis by (simp add: rc reshape_view_def reshape_def len)
    next
      case False
      with cols have "vlen a div nat r * nat r = vlen a" by (intro divc) simp_all
      then have "nat r * (vlen a div nat r) = vlen a" by (simp add: mult.commute)
      from key [OF this] False cols buf show ?thesis
        by (simp add: rc reshape_view_def reshape_def len)
    qed
  next
    case known
    show ?thesis
    proof (cases "r * c = int (vlen a)")
      case True
      then have "nat r * nat c = vlen a"
        using known by (metis nat_int nat_mult_distrib)
      from key [OF this] True known buf show ?thesis
        by (simp add: rc reshape_view_def reshape_def len)
    next
      case False
      with known show ?thesis by (simp add: rc reshape_view_def reshape_def len)
    qed
  qed
qed

lemma tabulate2_data_length: "length (data (tabulate2 r c f)) = r * c"
  and tabulate2_shape: "shape (tabulate2 r c f) = (r, c)"
  by (simp_all add: tabulate2_def)

lemma store_mat_load:
  assumes "length (data m) = fst (shape m) * snd (shape m)"
  shows "store_mat h m = (\<lparr>mbuf = length h, moff = 0, mshape = shape m\<rparr>, h @ [data m])"
    and "load_mat (h @ [data m]) \<lparr>mbuf = length h, moff = 0, mshape = shape m\<rparr> = m"
  using assms by (simp_all add: store_mat_def alloc_def load_mat_def)

lemma matmul_data_length:
  assumes "matmul a b = Inr m"
  shows "length (data m) = fst (shape m) * snd (shape m)"
  using assms
  by (auto simp: matmul_def tabulate2_def split: prod.splits if_splits)

lemma triu_data_length: "length (data (triu m k)) = fst (shape (triu m k)) * snd (shape (triu m k))"
  by (simp add: triu_def tabulate2_def split: prod.splits)

lemma tril_data_length: "length (data (tril m k)) = fst (shape (tril m k)) * snd (shape (tril m k))"
  by (simp add: tril_def tabulate2_def split: prod.splits)

text \<open>
  Each step of the scorer on the store computes what the step on values computes, and
  only appends buffers to the store.
\<close>

lemma scorer_refines:
  assumes "valid_view h s" "valid_view h e"
  shows "\<exists>new. find_best_answer_window_st h s e cs ce =
           (find_best_answer_window (load_vec h s) (load_vec h e) cs ce, h @ new)"
proof -
  define d where "d = ce - cs"
  let ?sv = "slice_view s cs ce" and ?ev = "slice_view e cs ce"
  note sv = slice_view_load [OF assms(1), of cs ce]
  note ev = slice_view_load [OF assms(2), of cs ce]
  show ?thesis
  proof (cases "reshape_view ?sv (d, 1)")
    case (Inl err)
    with reshape_view_refines [OF sv(2), of "(d, 1)"]
    have "reshape (py_slice (load_vec h s) cs ce) (d, 1) = Inl err" by (simp add: sv(1))
    with Inl have "find_best_answer_window_st h s e cs ce =
        (find_best_answer_window (load_vec h s) (load_vec h e) cs ce, h @ [])"
      by (simp add: find_best_answer_window_st_def find_best_answer_window_def d_def)
    then show ?thesis by blast
  next
    case col: (Inr col)
    with reshape_view_refines [OF sv(2), of "(d, 1)"]
    have pc: "reshape (py_slice (load_vec h s) cs ce) (d, 1) = Inr (load_mat h col)"
      by (simp add: sv(1))
    show ?thesis
    proof (cases "reshape_view ?ev (1, d)")
      case (Inl err)
      with reshape_view_refines [OF ev(2), of "(1, d)"]
      have "reshape (py_slice (load_vec h e) cs ce) (1, d) = Inl err" by (simp add: ev(1))
      with Inl col pc have "find_best_answer_window_st h s e cs ce =
          (find_best_answer_window (load_vec h s) (load_vec h e) cs ce, h @ [])"
        by (simp add: find_best_answer_window_st_def find_best_answer_window_def d_def)
      then show ?thesis by blast
    next
      case row: (Inr row)
      with reshape_view_refines [OF ev(2), of "(1, d)"]
      have pr: "reshape (py_slice (load_vec h e) cs ce) (1, d) = Inr (load_mat h row)"
        by (simp add: ev(1))
      show ?thesis
      proof (cases "matmul (load_mat h col) (load_mat h row)")
        case (Inl err)
        with col row pc pr have "find_best_answer_window_st h s e cs ce =
            (find_best_answer_window (load_vec h s) (load_vec h e) cs ce, h @ [])"
          by (simp add: find_best_answer_window_st_def find_best_answer_window_def d_def
                matmul_st_def)
        then show ?thesis by blast
      next
        case m0: (Inr m0)
        define m1 where "m1 = triu m0 0"
        define m2 where "m2 = tril m1 16"
        define h1 where "h1 = h @ [data m0]"
        define h2 where "h2 = h1 @ [data m1]"
        define h3 where "h3 = h2 @ [data m2]"
        define h4 where "h4 = h3 @ [data m2]"
        define v0 where "v0 = \<lparr>mbuf = length h, moff = 0, mshape = shape m0\<rparr>"
        define v1 where "v1 = \<lparr>mbuf = length h1, moff = 0, mshape = shape m1\<rparr>"
        define v2 where "v2 = \<lparr>mbuf = length h2, moff = 0, mshape = shape m2\<rparr>"
        define fl where "fl = \<lparr>vbuf = length h3, voff = 0, vlen = fst (shape m2) * snd (shape m2)\<rparr>"
        have w0: "length (data m0) = fst (shape m0) * snd (shape m0)"
          using m0 by (rule matmul_data_length)
        have w1: "length (data m1) = fst (shape m1) * snd (shape m1)"
          unfolding m1_def by (rule triu_data_length)
        have w2: "length (data m2) = fst (shape m2) * snd (shape m2)"
          unfolding m2_def by (rule tril_data_length)
        have s0: "matmul_st h col row = (Inr v0, h1)"
          using m0 store_mat_load(1) [OF w0, of h] by (simp add: matmul_st_def v0_def h1_def)
        have l0: "load_mat h1 v0 = m0"
          unfolding h1_def v0_def by (rule store_mat_load(2) [OF w0])
        have s1: "triu_st h1 v0 0 = (v1, h2)"
          using store_mat_load(1) [OF w1, of h1] by (simp add: triu_st_def l0 m1_def v1_def h2_def)
        have l1: "load_mat h2 v1 = m1"
          unfolding h2_def v1_def by (rule store_mat_load(2) [OF w1])
        have s2: "tril_st h2 v1 16 = (v2, h3)"
          using store_mat_load(1) [OF w2, of h2] by (simp add: tril_st_def l1 m2_def v2_def h3_def)
        have l2: "load_mat h3 v2 = m2"
          unfolding h3_def v2_def by (rule store_mat_load(2) [OF w2])
        have sh: "mshape v2 = shape m2" by (simp add: v2_def)
        have s3: "flatten_st h3 v2 = (fl, h4)"
          by (simp add: flatten_st_def alloc_def l2 flatten_def fl_def h4_def sh)
        have l3: "load_vec h4 fl = flatten m2"
          using w2 by (simp add: load_vec_def fl_def h4_def flatten_def)
        have l4: "load_mat h4 v2 = m2"
        proof -
          have "mbuf v2 < length h3" by (simp add: v2_def h3_def)
          then have "load_mat (h3 @ [data m2]) v2 = load_mat h3 v2" by (rule load_mat_append)
          then show ?thesis by (simp add: h4_def l2)
        qed
        have h4: "h4 = h @ [data m0, data m1, data m2, data m2]"
          by (simp add: h4_def h3_def h2_def h1_def)
        have st: "find_best_answer_window_st h s e cs ce =
          (case argmax (flatten m2) of Inl err \<Rightarrow> (Inl err, h4)
           | Inr k \<Rightarrow> (case np_divmod k (snd (shape m2)) of
               (max_s, max_e) \<Rightarrow> (case getitem2 m2 max_s max_e of Inl err \<Rightarrow> (Inl err, h4)
               | Inr max_score \<Rightarrow> (Inr (max_score, max_s, max_e), h4))))"
          unfolding find_best_answer_window_st_def Let_def d_def [symmetric]
          by (simp add: col row s0 s1 s2 s3 l3 l4 sh cong: sum.case_cong prod.case_cong)
        have pu: "find_best_answer_window (load_vec h s) (load_vec h e) cs ce =
          (case argmax (flatten m2) of Inl err \<Rightarrow> Inl err
           | Inr k \<Rightarrow> (case np_divmod k (snd (shape m2)) of
               (max_s, max_e) \<Rightarrow> (case getitem2 m2 max_s max_e of Inl err \<Rightarrow> Inl err
               | Inr max_score \<Rightarrow> Inr (max_score, max_s, max_e))))"
          unfolding find_best_answer_window_def Let_def d_def [symmetric]
          by (simp add: pc pr m0 m1_def m2_def cong: sum.case_cong prod.case_cong)
        have "find_best_answer_window_st h s e cs ce =
            (find_best_answer_window (load_vec h s) (load_vec h e) cs ce, h4)"
          unfolding st pu by (simp split: sum.splits prod.splits)
        then show ?thesis unfolding h4 by blast
      qed
    qed
  qed
qed

section \<open>Evaluation on concrete inputs\<close>

text \<open>The definitions that evaluate the scorer on a concrete input.\<close>

lemmas fbaw_eval = find_best_answer_window_def reshape_def py_slice_def slice_bound_def matmul_def
     tabulate2_def triu_def tril_def elem_def flatten_def argmax_def np_divmod_def getitem2_def upt_rec

lemmas fbaw_fl_eval = find_best_answer_window_fl_def reshape_def py_slice_def slice_bound_def
  matmul_fl_def tabulate2_def triu_def tril_def elem_def flatten_def argmax_def np_divmod_def
  getitem2_def upt_rec

section \<open>The claims of the specification\<close>

subsection \<open>The best window on valid scores\<close>

text \<open>
  Claim C1. For equal-length, non-negative score vectors and an in-range, non-empty context
  region, the scorer returns a triple \<open>(score, i, j)\<close> where \<open>(i, j)\<close> is a valid pair
  (\<open>i \<le> j\<close>, \<open>j - i \<le> 16\<close>, inside the context), \<open>score\<close> is the product, as the scorer
  computes it, of the start score of token \<open>cs + i\<close> and the end score of token \<open>cs + j\<close>,
  no valid pair has a larger product, and every valid pair with the same product comes after
  \<open>(i, j)\<close> in row-major order. The products are the rounded ones: the theorem holds for
  every rounding that leaves rounded numbers as they are and keeps non-negative numbers
  non-negative, as floating-point rounding does, and so also when two products that differ
  as real numbers round to the same score.
\<close>

theorem best_window:
  assumes "\<forall>x. rnd (rnd x) = rnd x" "\<forall>x. 0 \<le> x \<longrightarrow> 0 \<le> rnd x"
    and "length start_score = length end_score"
    and "\<forall>x\<in>set start_score. 0 \<le> x" "\<forall>x\<in>set end_score. 0 \<le> x"
    and "0 \<le> cs" "cs < ce" "ce \<le> int (length start_score)"
  shows "\<exists>score i j.
      find_best_answer_window_fl rnd start_score end_score cs ce = Inr (score, i, j) \<and>
      i \<le> j \<and> j - i \<le> 16 \<and> int j < ce - cs \<and>
      score = rnd (start_score ! (nat cs + i) * end_score ! (nat cs + j)) \<and>
      (\<forall>i' j'. i' \<le> j' \<and> j' - i' \<le> 16 \<and> int j' < ce - cs \<longrightarrow>
         rnd (start_score ! (nat cs + i') * end_score ! (nat cs + j')) \<le> score) \<and>
      (\<forall>i' j'. i' \<le> j' \<and> j' - i' \<le> 16 \<and> int j' < ce - cs \<and>
         rnd (start_score ! (nat cs + i') * end_score ! (nat cs + j')) = score \<longrightarrow>
         i < i' \<or> (i = i' \<and> j \<le> j'))"
proof -
  have e: "ce \<le> int (length end_score)" using assms(3,8) by simp
  have r1: "rnd (rnd x) = rnd x" for x using assms(1) by simp
  have r2: "0 \<le> x \<Longrightarrow> 0 \<le> rnd x" for x using assms(2) by simp
  from window_fl_nonneg [of rnd, OF r1 r2 assms(6,7,8) e assms(4,5)] obtain i j where w:
    "find_best_answer_window_fl rnd start_score end_score cs ce =
       Inr (rnd (start_score ! (nat cs + i) * end_score ! (nat cs + j)), i, j)"
    "i \<le> j" "j \<le> i + 16" "j < nat (ce - cs)"
    "\<forall>i' j'. i' \<le> j' \<and> j' \<le> i' + 16 \<and> j' < nat (ce - cs) \<longrightarrow>
       rnd (start_score ! (nat cs + i') * end_score ! (nat cs + j'))
         \<le> rnd (start_score ! (nat cs + i) * end_score ! (nat cs + j))"
    "\<forall>i' j'. i' \<le> j' \<and> j' \<le> i' + 16 \<and> j' < nat (ce - cs) \<and>
       rnd (start_score ! (nat cs + i') * end_score ! (nat cs + j')) =
         rnd (start_score ! (nat cs + i) * end_score ! (nat cs + j)) \<longrightarrow>
       i < i' \<or> (i = i' \<and> j \<le> j')"
    by blast
  have conv: "(j' - i' \<le> 16) = (j' \<le> i' + 16)" "(int j' < ce - cs) = (j' < nat (ce - cs))"
    for i' j' :: nat
    using assms(7) by auto
  show ?thesis
    using w unfolding conv by blast
qed

text \<open>
  The theorem at the scores \<open>[1/4, 9/32]\<close> and \<open>[1/4, 15/64]\<close> with products rounded to
  multiples of \<open>1/16\<close>: the three valid products \<open>1/16\<close>, \<open>15/256\<close> and \<open>135/2048\<close> all
  round to \<open>1/16\<close>, and the window is the first of them, \<open>(0, 0)\<close>.
\<close>

theorem best_window_witness:
  "\<exists>score i j. find_best_answer_window_fl round16 [1 / 4, 9 / 32] [1 / 4, 15 / 64] 0 2 =
       Inr (score, i, j) \<and> score = 1 / 16 \<and> i = 0 \<and> j = 0"
proof -
  have "\<exists>score i j.
      find_best_answer_window_fl round16 [1 / 4, 9 / 32] [1 / 4, 15 / 64] 0 2 = Inr (score, i, j) \<and>
      i \<le> j \<and> j - i \<le> 16 \<and> int j < 2 - 0 \<and>
      score = round16 ([1 / 4, 9 / 32] ! (nat 0 + i) * [1 / 4, 15 / 64] ! (nat 0 + j)) \<and>
      (\<forall>i' j'. i' \<le> j' \<and> j' - i' \<le> 16 \<and> int j' < 2 - 0 \<longrightarrow>
         round16 ([1 / 4, 9 / 32] ! (nat 0 + i') * [1 / 4, 15 / 64] ! (nat 0 + j')) \<le> score) \<and>
      (\<forall>i' j'. i' \<le> j' \<and> j' - i' \<le> 16 \<and> int j' < 2 - 0 \<and>
         round16 ([1 / 4, 9 / 32] ! (nat 0 + i') * [1 / 4, 15 / 64] ! (nat 0 + j')) = score \<longrightarrow>
         i < i' \<or> (i = i' \<and> j \<le> j'))"
    by (rule best_window) (simp_all add: round16_idem round16_nonneg)
  then obtain score i j where
    "find_best_answer_window_fl round16 [1 / 4, 9 / 32] [1 / 4, 15 / 64] 0 2 = Inr (score, i, j)"
    by blast
  moreover have "find_best_answer_window_fl round16 [1 / 4, 9 / 32] [1 / 4, 15 / 64] 0 2 =
      Inr (1 / 16, 0, 0)"
    by (simp add: fbaw_fl_eval round16_def round_def)
  ultimately show ?thesis by blast
qed

text \<open>Without rounding the third product is the largest, and the window is \<open>(1, 1)\<close>.\<close>

lemma rounding_changes_window:
  "find_best_answer_window [1 / 4, 9 / 32] [1 / 4, 15 / 64] 0 2 = Inr (135 / 2048, 1, 1)"
  by (simp add: fbaw_eval)

subsection \<open>Index bounds\<close>

text \<open>
  Claim C2. For every pair of equal-length valid score vectors (non-negative, as the
  softmax of \<open>get_score\<close> gives them) of length \<open>N\<close> and every \<open>0 \<le> cs < ce \<le> N\<close>, the
  returned indices satisfy \<open>cs \<le> cs + i \<le> cs + j < ce\<close> and \<open>j - i \<le> 16\<close>.
\<close>

theorem index_bounds:
  assumes "length start_score = length end_score"
    and "\<forall>x\<in>set start_score. 0 \<le> x" "\<forall>x\<in>set end_score. 0 \<le> x"
    and "0 \<le> cs" "cs < ce" "ce \<le> int (length start_score)"
  shows "\<exists>score i j.
      find_best_answer_window start_score end_score cs ce = Inr (score, i, j) \<and>
      cs \<le> cs + int i \<and> cs + int i \<le> cs + int j \<and> cs + int j < ce \<and> j - i \<le> 16"
proof -
  have e: "ce \<le> int (length end_score)" using assms(1,6) by simp
  from window_nonneg [OF assms(4,5,6) e assms(2,3)] obtain i j where w:
    "find_best_answer_window start_score end_score cs ce =
       Inr (start_score ! (nat cs + i) * end_score ! (nat cs + j), i, j)"
    "i \<le> j" "j \<le> i + 16" "j < nat (ce - cs)"
    by blast
  from w(2,3,4) have "cs \<le> cs + int i \<and> cs + int i \<le> cs + int j \<and> cs + int j < ce \<and> j - i \<le> 16"
    by auto
  with w(1) show ?thesis by blast
qed

theorem index_bounds_witness:
  "\<exists>score i j. find_best_answer_window [0, 1, 2, 4] [0, 3, 1, 2] 1 4 = Inr (score, i, j) \<and>
      1 \<le> 1 + int i \<and> 1 + int i \<le> 1 + int j \<and> 1 + int j < 4 \<and> j - i \<le> 16"
  by (rule index_bounds) simp_all

subsection \<open>From the window to character offsets\<close>

text \<open>
  Claim C3 says that the caller adds \<open>context_start_idx\<close> to the window indices before it
  looks them up in the span index map. \<open>postprocess\<close> looks up the context-local indices
  themselves: the map has one entry per context token. With an empty question, three
  context tokens and equal logits the window is \<open>(0, 0)\<close>; the code returns the span of
  context token 0, the reading of the claim that of context token 2.
\<close>

theorem answer_offsets_counterexample:
  "postprocess [0, 0, 0, 0, 0, 0] [0, 0, 0, 0, 0, 0] [] [(0, 5), (6, 11), (12, 17)] 6 =
     Inr (1 / 36, 0, 5) \<and>
   postprocess_spec [0, 0, 0, 0, 0, 0] [0, 0, 0, 0, 0, 0] [] [(0, 5), (6, 11), (12, 17)] 6 =
     Inr (1 / 36, 12, 17)"
  by (simp add: postprocess_def postprocess_spec_def get_score_def list_getitem_def fbaw_eval)

text \<open>
  Claim C3, as the code does it. When the scorer returns the context-local window
  \<open>(i, j)\<close> and both indices are inside the span index map, \<open>postprocess\<close> returns the start
  offset of entry \<open>i\<close> and the end offset of entry \<open>j\<close> of the map, with no index shift, and
  \<open>get_best_answer\<close> returns the slice of the original context string between these two
  offsets, with the score.
\<close>

theorem answer_offsets:
  assumes "text_to_tokens (lower context) vocab = (context_tokens, spans)"
    and "text_to_tokens (lower question) vocab = (question_tokens, question_spans)"
    and "infer (prepare_input cls_token sep_token question_tokens context_tokens input_keys) =
           (output_s, output_e)"
    and "find_best_answer_window (get_score output_s) (get_score output_e)
           (int (length question_tokens) + 2)
           (int (length context_tokens) + int (length question_tokens) + 3 - 1) = Inr (score, i, j)"
    and "i < length spans" "j < length spans"
  shows "postprocess output_s output_e question_tokens spans
           (int (length context_tokens) + int (length question_tokens) + 3) =
           Inr (score, fst (spans ! i), snd (spans ! j)) \<and>
         get_best_answer lower text_to_tokens infer cls_token sep_token question context vocab input_keys =
           Inr (py_slice context (fst (spans ! i)) (snd (spans ! j)), score)"
proof -
  have p: "postprocess output_s output_e question_tokens spans
           (int (length context_tokens) + int (length question_tokens) + 3) =
           Inr (score, fst (spans ! i), snd (spans ! j))"
    using assms(4,5,6) by (simp add: postprocess_def Let_def list_getitem_def)
  then show ?thesis
    using assms(1,2,3) by (simp add: get_best_answer_def Let_def)
qed

text \<open>
  The theorem on a context of three tokens, a question of one token and equal logits: the
  answer is the text of the first context token.
\<close>

theorem answer_offsets_witness:
  "get_best_answer (\<lambda>t. t)
     (\<lambda>t v. if t = ''aa bb cc'' then ([1, 2, 3], [(0, 2), (3, 5), (6, 8)]) else ([9], [(0, 1)]))
     (\<lambda>d. ([0, 0, 0, 0, 0, 0, 0], [0, 0, 0, 0, 0, 0, 0]))
     101 102 ''q'' ''aa bb cc'' () [] = Inr (''aa'', 1 / 49)"
proof -
  let ?tok = "\<lambda>(t::string) (v::unit).
     if t = ''aa bb cc'' then ([1, 2, 3 :: int], [(0, 2), (3, 5), (6, 8 :: int)])
     else ([9], [(0::int, 1::int)])"
  let ?inf = "\<lambda>d::input_dict. ([0, 0, 0, 0, 0, 0, 0 :: real], [0, 0, 0, 0, 0, 0, 0 :: real])"
  have w: "find_best_answer_window (get_score [0, 0, 0, 0, 0, 0, 0]) (get_score [0, 0, 0, 0, 0, 0, 0])
      (int (length [9 :: int]) + 2) (int (length [1, 2, 3 :: int]) + int (length [9 :: int]) + 3 - 1) =
      Inr (1 / 49, 0, 0)"
    by (simp add: get_score_def fbaw_eval)
  have "get_best_answer (\<lambda>t. t) ?tok ?inf 101 102 ''q'' ''aa bb cc'' () [] =
      Inr (py_slice ''aa bb cc'' (fst ([(0, 2), (3, 5), (6, 8)] ! 0))
             (snd ([(0, 2), (3, 5), (6, 8)] ! 0)), 1 / 49)"
    using answer_offsets [of ?tok "\<lambda>t. t" "''aa bb cc''" "()" "[1, 2, 3]" "[(0, 2), (3, 5), (6, 8)]"
        "''q''" "[9]" "[(0, 1)]" ?inf 101 102 "[]" "[0, 0, 0, 0, 0, 0, 0]" "[0, 0, 0, 0, 0, 0, 0]"
        "1 / 49" 0 0, OF _ _ _ w]
    by simp
  then show ?thesis by (simp add: py_slice_def slice_bound_def)
qed

subsection \<open>The span of the window\<close>

text \<open>
  Claim C4. The returned window is to cover no more than 16 tokens; the comment above
  \<^verbatim>\<open>np.tril(score_mat, 16)\<close> says the same of the code (candidates longer than 16 words
  are reset). The call keeps every pair with \<open>j - i \<le> 16\<close>, one token too many: with half of
  the start probability at token 0 and half of the end probability at token 16, the scorer
  returns the window \<open>(0, 16)\<close>, which covers the 17 tokens \<open>0, \<dots>, 16\<close>.
\<close>

theorem window_of_17_tokens:
  "find_best_answer_window
     [1 / 2, 1 / 32, 1 / 32, 1 / 32, 1 / 32, 1 / 32, 1 / 32, 1 / 32, 1 / 32,
      1 / 32, 1 / 32, 1 / 32, 1 / 32, 1 / 32, 1 / 32, 1 / 32, 1 / 32]
     [1 / 32, 1 / 32, 1 / 32, 1 / 32, 1 / 32, 1 / 32, 1 / 32, 1 / 32,
      1 / 32, 1 / 32, 1 / 32, 1 / 32, 1 / 32, 1 / 32, 1 / 32, 1 / 32, 1 / 2] 0 17 =
     Inr (1 / 4, 0, 16) \<and>
   length [(0::nat)..<Suc 16] = 17"
proof -
  have "find_best_answer_window
     [1 / 2, 1 / 32, 1 / 32, 1 / 32, 1 / 32, 1 / 32, 1 / 32, 1 / 32, 1 / 32,
      1 / 32, 1 / 32, 1 / 32, 1 / 32, 1 / 32, 1 / 32, 1 / 32, 1 / 32]
     [1 / 32, 1 / 32, 1 / 32, 1 / 32, 1 / 32, 1 / 32, 1 / 32, 1 / 32,
      1 / 32, 1 / 32, 1 / 32, 1 / 32, 1 / 32, 1 / 32, 1 / 32, 1 / 32, 1 / 2] 0 17 =
     Inr (1 / 4, 0, 16)"
    by code_simp
  then show ?thesis by simp
qed

subsection \<open>Uniform scores\<close>

text \<open>
  Claim C5 expects the window \<open>(0, min 16 (context_len - 1))\<close> on uniform scores. All valid
  entries of the matrix are then equal, and \<^verbatim>\<open>argmax\<close> returns the first of them, the
  entry \<open>(0, 0)\<close>; with a negative common product the first maximum is a zeroed entry.
\<close>

theorem uniform_scores_counterexample:
  "find_best_answer_window [1, 1, 1] [1, 1, 1] 0 3 = Inr (1, 0, 0) \<and>
   (0::nat) \<noteq> min 16 (nat (3 - 0) - 1) \<and>
   find_best_answer_window [2, 2, 2] [- 1, - 1, - 1] 0 3 = Inr (0, 1, 0)"
  by (simp add: fbaw_eval)

text \<open>
  Claim C5, with the window the code returns. When every start score is \<open>u\<close>, every end
  score is \<open>v\<close> and \<open>u * v\<close> is not negative (as for non-negative scores), the scorer returns
  \<open>i = 0\<close> and \<open>j = 0\<close> with the score \<open>u * v\<close> on every in-range, non-empty context.
\<close>

theorem uniform_scores:
  assumes "\<forall>x\<in>set start_score. x = u" "\<forall>x\<in>set end_score. x = v" "0 \<le> u * v"
    and "0 \<le> cs" "cs < ce" "ce \<le> int (length start_score)" "ce \<le> int (length end_score)"
  shows "find_best_answer_window start_score end_score cs ce = Inr (u * v, 0, 0)"
proof -
  define a where "a = py_slice start_score cs ce"
  define b where "b = py_slice end_score cs ce"
  define n where "n = nat (ce - cs)"
  define g where "g = (\<lambda>k. masked_score a b (k div n) (k mod n))"
  have le: "cs \<le> ce" using assms(5) by simp
  have l: "length a = n" "length b = n"
    using py_slice_inside(2) [OF assms(4) le assms(6)] py_slice_inside(2) [OF assms(4) le assms(7)]
    by (simp_all add: a_def b_def n_def)
  have n: "0 < n" using assms(5) by (simp add: n_def)
  have ne: "py_slice start_score cs ce \<noteq> []" "py_slice end_score cs ce \<noteq> []"
    using l n by (auto simp: a_def b_def)
  have ok: "ce - cs < 0 \<or> int (length (py_slice start_score cs ce)) = ce - cs"
      "ce - cs < 0 \<or> int (length (py_slice end_score cs ce)) = ce - cs"
    using l assms(5) by (simp_all add: a_def b_def n_def)
  have ai: "a ! i = u" if "i < n" for i
  proof -
    have "a ! i \<in> set start_score"
      using nth_mem [of i a] that l set_py_slice [of start_score cs ce] by (auto simp: a_def)
    with assms(1) show ?thesis by simp
  qed
  have bi: "b ! i = v" if "i < n" for i
  proof -
    have "b ! i \<in> set end_score"
      using nth_mem [of i b] that l set_py_slice [of end_score cs ce] by (auto simp: b_def)
    with assms(2) show ?thesis by simp
  qed
  from window_first_max [OF ok ne] obtain k where k: "k < n * n"
    "find_best_answer_window start_score end_score cs ce = Inr (g k, k div n, k mod n)"
    "\<forall>q<k. g q < g k"
    unfolding a_def [symmetric] b_def [symmetric] l g_def by blast
  have g0: "g 0 = u * v" using n by (simp add: g_def masked_score_def ai bi)
  have gk: "g k \<le> u * v"
  proof -
    have "k div n < n" "k mod n < n" using div_mod_bounds [OF k(1)] by simp_all
    then show ?thesis using assms(3) by (simp add: g_def masked_score_def ai bi)
  qed
  have "k = 0"
  proof (rule ccontr)
    assume "k \<noteq> 0"
    then have "g 0 < g k" using k(3) by simp
    with g0 gk show False by simp
  qed
  with k(2) g0 show ?thesis by simp
qed

theorem uniform_scores_witness:
  "find_best_answer_window [1/2, 1/2, 1/2] [1/3, 1/3, 1/3] 0 3 = Inr (1/6, 0, 0)"
proof -
  have "find_best_answer_window [1/2, 1/2, 1/2] [1/3, 1/3, 1/3] 0 3 = Inr (1/2 * (1/3), 0, 0)"
    by (rule uniform_scores) simp_all
  then show ?thesis by simp
qed

subsection \<open>Malformed inputs\<close>

text \<open>
  Claim C6 expects a failure on score vectors of different lengths and on
  \<open>context_end_idx \<le> context_start_idx\<close>. The scorer checks neither: it returns a window for
  vectors of lengths 2 and 1 when the context lies inside both, and for the bounds \<open>0\<close> and
  \<open>-1\<close>, which Python reads as the slice without the last token.
\<close>

theorem no_validation_counterexample:
  "length [1, 1 :: real] \<noteq> length [1 :: real] \<and>
   find_best_answer_window [1, 1] [1] 0 1 = Inr (1, 0, 0) \<and>
   (- 1 :: int) \<le> 0 \<and> find_best_answer_window [1, 2] [3, 4] 0 (- 1) = Inr (3, 0, 0)"
  by (simp add: fbaw_eval)

text \<open>
  Claim C6, as the code behaves. With non-negative bounds the scorer raises ValueError (from
  the reshape of a slice of the wrong size, or from \<^verbatim>\<open>argmax\<close> of an empty matrix; it has no
  check of its own) exactly when \<open>ce \<le> cs\<close> or \<open>ce\<close> lies beyond the end of one of the
  vectors, and returns a window exactly when \<open>cs < ce\<close> and \<open>ce\<close> is within both vectors,
  whether or not their lengths agree.
\<close>

theorem scorer_failures:
  assumes "0 \<le> cs" "0 \<le> ce"
  shows "(find_best_answer_window start_score end_score cs ce = Inl ValueError \<longleftrightarrow>
            ce \<le> cs \<or> int (length start_score) < ce \<or> int (length end_score) < ce) \<and>
         ((\<exists>w. find_best_answer_window start_score end_score cs ce = Inr w) \<longleftrightarrow>
            cs < ce \<and> ce \<le> int (length start_score) \<and> ce \<le> int (length end_score))"
  using scorer_error_iff [OF assms] by blast

theorem scorer_failures_witness:
  "find_best_answer_window [1, 2, 3] [4, 5, 6] 2 2 = Inl ValueError \<and>
   find_best_answer_window [1, 2, 3] [4, 5] 1 3 = Inl ValueError \<and>
   (\<exists>w. find_best_answer_window [1, 2, 3] [4, 5] 0 2 = Inr w)"
  using scorer_failures [of 2 2 "[1, 2, 3]" "[4, 5, 6]"]
    scorer_failures [of 1 3 "[1, 2, 3]" "[4, 5]"]
    scorer_failures [of 0 2 "[1, 2, 3]" "[4, 5]"]
  by simp

subsection \<open>The end-to-end scenario\<close>

text \<open>
  Claim C7. On the start scores \<open>[0.1, 0.1, 0.7, 0.1]\<close>, the end scores
  \<open>[0.1, 0.1, 0.1, 0.7]\<close> and the context \<open>[0, 4)\<close> the scorer returns the window
  \<open>i = 2\<close>, \<open>j = 3\<close> with score \<open>0.49\<close>.
\<close>

theorem scenario_example:
  "find_best_answer_window [0.1, 0.1, 0.7, 0.1] [0.1, 0.1, 0.1, 0.7] 0 4 = Inr (0.49, 2, 3)"
  by (simp add: fbaw_eval)

subsection \<open>Purity\<close>

text \<open>
  Claim C8. On a store in which both score vectors are valid views, a call of the scorer
  returns the value of the scorer on the contents of the two views, leaves every buffer of
  the store as it was (so both score vectors read the same afterwards), and a second call
  with the same arguments, on the store the first call left, returns the same result.
\<close>

theorem scorer_is_pure:
  assumes "valid_view h start_score" "valid_view h end_score"
  shows "\<exists>r h1 h2.
      find_best_answer_window_st h start_score end_score cs ce = (r, h1) \<and>
      find_best_answer_window_st h1 start_score end_score cs ce = (r, h2) \<and>
      take (length h) h1 = h \<and>
      load_vec h1 start_score = load_vec h start_score \<and>
      load_vec h1 end_score = load_vec h end_score \<and>
      r = find_best_answer_window (load_vec h start_score) (load_vec h end_score) cs ce"
proof -
  from scorer_refines [OF assms] obtain new where
    c1: "find_best_answer_window_st h start_score end_score cs ce =
      (find_best_answer_window (load_vec h start_score) (load_vec h end_score) cs ce, h @ new)"
    by blast
  have b: "vbuf start_score < length h" "vbuf end_score < length h"
    using assms by (simp_all add: valid_view_def)
  have l: "load_vec (h @ new) start_score = load_vec h start_score"
    "load_vec (h @ new) end_score = load_vec h end_score"
    using b by (simp_all add: load_vec_append)
  have v: "valid_view (h @ new) start_score" "valid_view (h @ new) end_score"
    using assms by (simp_all add: valid_view_append)
  from scorer_refines [OF v] obtain new' where
    c2: "find_best_answer_window_st (h @ new) start_score end_score cs ce =
      (find_best_answer_window (load_vec h start_score) (load_vec h end_score) cs ce,
       (h @ new) @ new')"
    unfolding l by blast
  have "take (length h) (h @ new) = h" by simp
  with c1 c2 l show ?thesis by blast
qed

theorem scorer_is_pure_witness:
  "\<exists>r h1 h2.
      find_best_answer_window_st [[1, 3, 2], [2, 1, 5]]
        \<lparr>vbuf = 0, voff = 0, vlen = 3\<rparr> \<lparr>vbuf = 1, voff = 0, vlen = 3\<rparr> 0 3 = (r, h1) \<and>
      find_best_answer_window_st h1
        \<lparr>vbuf = 0, voff = 0, vlen = 3\<rparr> \<lparr>vbuf = 1, voff = 0, vlen = 3\<rparr> 0 3 = (r, h2) \<and>
      take 2 h1 = [[1, 3, 2], [2, 1, 5]] \<and> r = Inr (15, 1, 2)"
proof -
  have e: "find_best_answer_window [1, 3, 2] [2, 1, 5] 0 3 = Inr (15, 1, 2)"
    by (simp add: fbaw_eval)
  have "valid_view [[1, 3, 2], [2, 1, 5]] \<lparr>vbuf = 0, voff = 0, vlen = 3\<rparr>"
    "valid_view [[1, 3, 2], [2, 1, 5]] \<lparr>vbuf = 1, voff = 0, vlen = 3\<rparr>"
    by (simp_all add: valid_view_def)
  from scorer_is_pure [OF this, of 0 3] obtain r h1 h2 where
    "find_best_answer_window_st [[1, 3, 2], [2, 1, 5]]
        \<lparr>vbuf = 0, voff = 0, vlen = 3\<rparr> \<lparr>vbuf = 1, voff = 0, vlen = 3\<rparr> 0 3 = (r, h1)"
    "find_best_answer_window_st h1
        \<lparr>vbuf = 0, voff = 0, vlen = 3\<rparr> \<lparr>vbuf = 1, voff = 0, vlen = 3\<rparr> 0 3 = (r, h2)"
    "take (length [[1, 3, 2], [2, 1, 5 :: real]]) h1 = [[1, 3, 2], [2, 1, 5]]"
    "r = find_best_answer_window
           (load_vec [[1, 3, 2], [2, 1, 5]] \<lparr>vbuf = 0, voff = 0, vlen = 3\<rparr>)
           (load_vec [[1, 3, 2], [2, 1, 5]] \<lparr>vbuf = 1, voff = 0, vlen = 3\<rparr>) 0 3"
    by blast
  moreover have "length [[1, 3, 2], [2, 1, 5 :: real]] = 2" by simp
  moreover have "load_vec [[1, 3, 2], [2, 1, 5]] \<lparr>vbuf = 0, voff = 0, vlen = 3\<rparr> = [1, 3, 2]"
    "load_vec [[1, 3, 2], [2, 1, 5]] \<lparr>vbuf = 1, voff = 0, vlen = 3\<rparr> = [2, 1, 5]"
    by (simp_all add: load_vec_def)
  ultimately show ?thesis using e by metis
qed

subsection \<open>A context of one token\<close>

text \<open>
  Claim C9. On a context region of exactly one token (\<open>ce = cs + 1\<close>) that lies inside both
  score vectors, the scorer returns \<open>i = 0\<close> and \<open>j = 0\<close>, whatever the scores are; the
  score is the product of that token's start and end scores.
\<close>

theorem single_token_context:
  assumes "0 \<le> cs" "cs < int (length start_score)" "cs < int (length end_score)"
    and "ce = cs + 1"
  shows "find_best_answer_window start_score end_score cs ce =
           Inr (start_score ! nat cs * end_score ! nat cs, 0, 0)"
proof -
  have r: "cs \<le> ce" "ce \<le> int (length start_score)" "ce \<le> int (length end_score)"
    using assms by simp_all
  have l: "length (py_slice start_score cs ce) = 1" "length (py_slice end_score cs ce) = 1"
    using py_slice_inside(2) [OF assms(1) r(1,2)] py_slice_inside(2) [OF assms(1) r(1,3)] assms(4)
    by simp_all
  have ne: "py_slice start_score cs ce \<noteq> []" "py_slice end_score cs ce \<noteq> []"
    using l by auto
  have ok: "ce - cs < 0 \<or> int (length (py_slice start_score cs ce)) = ce - cs"
    "ce - cs < 0 \<or> int (length (py_slice end_score cs ce)) = ce - cs"
    using l assms(4) by simp_all
  have nth: "py_slice start_score cs ce ! 0 = start_score ! nat cs"
    "py_slice end_score cs ce ! 0 = end_score ! nat cs"
    using py_slice_nth [OF assms(1) r(1,2), of 0] py_slice_nth [OF assms(1) r(1,3), of 0] assms(4)
    by simp_all
  from window_first_max [OF ok ne] obtain k where k: "k < 1 * (1::nat)"
    "find_best_answer_window start_score end_score cs ce =
       Inr (masked_score (py_slice start_score cs ce) (py_slice end_score cs ce) (k div 1) (k mod 1),
            k div 1, k mod 1)"
    unfolding l by blast
  from k(1) have "k = 0" by simp
  with k(2) show ?thesis by (simp add: masked_score_def nth)
qed

theorem single_token_context_witness:
  "find_best_answer_window [5, -2, 7] [1, 3, 4] 1 2 = Inr (-6, 0, 0)"
proof -
  have "find_best_answer_window [5, -2, 7] [1, 3, 4] 1 2 =
      Inr ([5, -2, 7] ! nat 1 * [1, 3, 4] ! nat 1, 0, 0)"
    by (rule single_token_context) simp_all
  then show ?thesis by simp
qed

subsection \<open>The network input\<close>

text \<open>
  Claim C10. For every question token list and context token list, the three rows
  \<open>input_ids\<close>, \<open>attention_mask\<close> and \<open>token_type_ids\<close> built by \<open>prepare_input\<close> have the
  length \<open>len(question_tokens) + len(context_tokens) + 3\<close>; the attention mask is 1
  everywhere; the token types are 0 at the first \<open>len(question_tokens) + 2\<close> positions and 1
  at the remaining \<open>len(context_tokens) + 1\<close>.
\<close>

theorem prepare_input_layout:
  "\<exists>ids mask types.
     input_ids (prepare_input cls_token sep_token question_tokens context_tokens input_keys) = [ids] \<and>
     attention_mask (prepare_input cls_token sep_token question_tokens context_tokens input_keys) = [mask] \<and>
     token_type_ids (prepare_input cls_token sep_token question_tokens context_tokens input_keys) = [types] \<and>
     length ids = length question_tokens + length context_tokens + 3 \<and>
     length mask = length question_tokens + length context_tokens + 3 \<and>
     length types = length question_tokens + length context_tokens + 3 \<and>
     (\<forall>k<length question_tokens + length context_tokens + 3. mask ! k = 1) \<and>
     (\<forall>k<length question_tokens + 2. types ! k = 0) \<and>
     (\<forall>k. length question_tokens + 2 \<le> k \<and> k < length question_tokens + length context_tokens + 3
        \<longrightarrow> types ! k = 1)"
proof -
  let ?q = "length question_tokens" and ?c = "length context_tokens"
  let ?d = "prepare_input cls_token sep_token question_tokens context_tokens input_keys"
  let ?ids = "[cls_token] @ question_tokens @ [sep_token] @ context_tokens @ [sep_token]"
  let ?mask = "replicate (?q + ?c + 3) (1::int)"
  let ?types = "replicate (?q + 2) (0::int) @ replicate (?c + 1) 1"
  have len: "length ?ids = ?q + ?c + 3" by simp
  have d: "input_ids ?d = [?ids]" "attention_mask ?d = [?mask]" "token_type_ids ?d = [?types]"
    unfolding prepare_input_def Let_def len by simp_all
  have ones: "\<forall>k<?q + ?c + 3. ?mask ! k = 1"
    by (intro allI impI) (rule nth_replicate)
  have zeros: "\<forall>k<?q + 2. ?types ! k = 0"
  proof (intro allI impI)
    fix k
    assume k: "k < ?q + 2"
    then have "k < length (replicate (?q + 2) (0::int))" by simp
    then have "?types ! k = replicate (?q + 2) 0 ! k"
      by (simp only: nth_append if_True)
    also have "\<dots> = 0" using k by (rule nth_replicate)
    finally show "?types ! k = 0" .
  qed
  have rest: "\<forall>k. ?q + 2 \<le> k \<and> k < ?q + ?c + 3 \<longrightarrow> ?types ! k = 1"
  proof (intro allI impI)
    fix k
    assume k: "?q + 2 \<le> k \<and> k < ?q + ?c + 3"
    then have "\<not> k < length (replicate (?q + 2) (0::int))" by simp
    then have "?types ! k = replicate (?c + 1) 1 ! (k - length (replicate (?q + 2) (0::int)))"
      by (simp only: nth_append if_False)
    also have "\<dots> = 1"
    proof -
      have "length (replicate (?q + 2) (0::int)) = ?q + 2" by simp
      then have "k - length (replicate (?q + 2) (0::int)) < ?c + 1" using k by linarith
      then show ?thesis by (rule nth_replicate)
    qed
    finally show "?types ! k = 1" .
  qed
  have "length ?mask = ?q + ?c + 3" "length ?types = ?q + ?c + 3" by simp_all
  with d len ones zeros rest show ?thesis by blast
qed

theorem prepare_input_layout_witness:
  "\<exists>ids mask types.
     input_ids (prepare_input 101 102 [5, 6] [7, 8, 9] []) = [ids] \<and>
     attention_mask (prepare_input 101 102 [5, 6] [7, 8, 9] []) = [mask] \<and>
     token_type_ids (prepare_input 101 102 [5, 6] [7, 8, 9] []) = [types] \<and>
     length ids = 8 \<and> length mask = 8 \<and> length types = 8 \<and>
     mask ! 7 = 1 \<and> types ! 3 = 0 \<and> types ! 4 = 1"
proof -
  from prepare_input_layout [of 101 102 "[5, 6]" "[7, 8, 9]" "[]"]
  obtain ids mask types where d:
    "input_ids (prepare_input 101 102 [5, 6] [7, 8, 9] []) = [ids]"
    "attention_mask (prepare_input 101 102 [5, 6] [7, 8, 9] []) = [mask]"
    "token_type_ids (prepare_input 101 102 [5, 6] [7, 8, 9] []) = [types]"
    "length ids = length [5, 6 :: int] + length [7, 8, 9 :: int] + 3"
    "length mask = length [5, 6 :: int] + length [7, 8, 9 :: int] + 3"
    "length types = length [5, 6 :: int] + length [7, 8, 9 :: int] + 3"
    "\<forall>k<length [5, 6 :: int] + length [7, 8, 9 :: int] + 3. mask ! k = 1"
    "\<forall>k<length [5, 6 :: int] + 2. types ! k = 0"
    "\<forall>k. length [5, 6 :: int] + 2 \<le> k \<and> k < length [5, 6 :: int] + length [7, 8, 9 :: int] + 3
        \<longrightarrow> types ! k = 1"
    by blast
  from d(7) have "mask ! 7 = 1" by simp
  moreover from d(8) have "types ! 3 = 0" by simp
  moreover from d(9) have "types ! 4 = 1" by simp
  ultimately show ?thesis using d(1-6) by simp
qed

end
